theory Spec2Isabelle
  imports Complex_Main "HOL-Library.Monad_Syntax"
begin

section \<open>Numbers and vectors\<close>

text \<open>
  The simulation computes with JavaScript numbers, which are IEEE doubles. Where only a
  rounding error separates the double from the exact result, the model computes with exact
  reals. Where rounding decides what the program does, the model rounds as the code does:
  in \<open>evaporate\<close>, whose factor \<open>1 - rate\<close> is the double 1 for a small rate, and in
  \<open>closestOnSeg\<close>, whose denominator underflows to 0 on a short edge. The special values
  appear where the code can produce them (the quotients \<open>0/0\<close> and \<open>x/0\<close> in
  \<open>closestOnSeg\<close>, the initial \<open>Infinity\<close> of a minimum search); each such place is written
  out in the model. Quantities that the code only ever sets to whole numbers (grid dimensions
  and indices, food units) are integers.
\<close>

subsection \<open>Rounding to a double\<close>

text \<open>
  \<open>fl x\<close> is the double nearest to \<open>x\<close>, ties going to the even significand: a double is a
  multiple of \<open>2 ^ e\<close> by a whole number below \<open>2 ^ 53\<close> in magnitude, where \<open>e\<close> is at least
  \<open>-1074\<close> (the subnormal numbers; what lies below half of \<open>2 ^ -1074\<close> rounds to 0). The
  overflow to \<open>Infinity\<close> above \<open>2 ^ 1024\<close> is not part of \<open>fl\<close>: the evaporation only
  shrinks its cells, and the theorem about \<open>closestOnSeg\<close> bounds the coordinates.
\<close>

definition pow2 :: "int \<Rightarrow> real" where
  "pow2 k = 2 powr real_of_int k"

definition rne :: "real \<Rightarrow> int" where
  \<comment> \<open>the nearest whole number, the even one of two that are equally near\<close>
  "rne y = (let n = \<lfloor>y\<rfloor>; r = y - real_of_int n
            in if r < 1 / 2 then n else if r > 1 / 2 then n + 1
               else if even n then n else n + 1)"

definition expo :: "real \<Rightarrow> int" where
  \<comment> \<open>the exponent of the last place of the doubles around \<open>x\<close>\<close>
  "expo x = max (\<lfloor>log 2 \<bar>x\<bar>\<rfloor> - 52) (- 1074)"

definition fl :: "real \<Rightarrow> real" where
  "fl x = real_of_int (rne (x / pow2 (expo x))) * pow2 (expo x)"

subsection \<open>Vectors\<close>

text \<open>The class \<open>Vec\<close> of \<open>src/simulation.js\<close>, with the methods the modelled code calls.\<close>

datatype Vec = Vec (vec_x: real) (vec_y: real)

definition add :: "Vec \<Rightarrow> Vec \<Rightarrow> Vec" where
  "add u v = Vec (vec_x u + vec_x v) (vec_y u + vec_y v)"

definition subtract :: "Vec \<Rightarrow> Vec \<Rightarrow> Vec" where
  "subtract u v = Vec (vec_x u - vec_x v) (vec_y u - vec_y v)"

definition multiply :: "Vec \<Rightarrow> real \<Rightarrow> Vec" where
  "multiply u s = Vec (vec_x u * s) (vec_y u * s)"

definition divide_vec :: "Vec \<Rightarrow> real \<Rightarrow> Vec" where
  "divide_vec u s = Vec (vec_x u / s) (vec_y u / s)"

definition magnitude :: "Vec \<Rightarrow> real" where
  \<comment> \<open>\<open>Math.hypot(x, y)\<close>\<close>
  "magnitude u = sqrt (vec_x u * vec_x u + vec_y u * vec_y u)"

definition normalize :: "Vec \<Rightarrow> Vec" where
  \<comment> \<open>the division only happens for \<open>m > 0\<close>\<close>
  "normalize u = (let m = magnitude u in if m > 0 then divide_vec u m else Vec 0 0)"

definition dot :: "Vec \<Rightarrow> Vec \<Rightarrow> real" where
  "dot u v = vec_x u * vec_x v + vec_y u * vec_y v"

definition atan2 :: "real \<Rightarrow> real \<Rightarrow> real" where
  \<comment> \<open>\<open>Math.atan2(y, x)\<close> on reals (there is no negative zero here)\<close>
  "atan2 b a =
     (if a > 0 then arctan (b / a)
      else if a < 0 \<and> b \<ge> 0 then arctan (b / a) + pi
      else if a < 0 then arctan (b / a) - pi
      else if b > 0 then pi / 2
      else if b < 0 then - (pi / 2)
      else 0)"

definition angle :: "Vec \<Rightarrow> real" where
  "angle u = atan2 (vec_y u) (vec_x u)"

definition random_vec :: "real \<Rightarrow> Vec" where
  \<comment> \<open>\<open>Vec.random()\<close>; the argument is the value \<open>Math.random()\<close> returned\<close>
  "random_vec r = (let a = r * pi * 2 in Vec (cos a) (sin a))"

section \<open>The pheromone field\<close>

text \<open>
  The class \<open>PheromoneField\<close> of \<open>src/simulation.js\<close>: three arrays of columns, indexed
  \<open>[x][y]\<close>. A method that updates the field in place takes the field and returns the new
  one.
\<close>

type_synonym grid = "real list list"

record PheromoneField =
  cell :: real
  gridW :: int
  gridH :: int
  home :: grid
  food :: grid
  pathSuccess :: grid

definition new_grid :: "int \<Rightarrow> int \<Rightarrow> grid" where
  \<comment> \<open>\<open>Array(gridW).fill().map(() => Array(gridH).fill(0))\<close>: \<open>map\<close> builds a column
      of its own for every \<open>x\<close>, so no two columns are the same array\<close>
  "new_grid w h = replicate (nat w) (replicate (nat h) 0)"

definition new_PheromoneField :: "real \<Rightarrow> real \<Rightarrow> real \<Rightarrow> PheromoneField" where
  \<comment> \<open>the constructor; every call site passes the cell size 6\<close>
  "new_PheromoneField w h c =
     (let gw = max 1 \<lceil>w / c\<rceil>; gh = max 1 \<lceil>h / c\<rceil>
      in \<lparr>cell = c, gridW = gw, gridH = gh,
          home = new_grid gw gh, food = new_grid gw gh, pathSuccess = new_grid gw gh\<rparr>)"

definition clamp :: "int \<Rightarrow> int \<Rightarrow> int" where
  \<comment> \<open>\<open>_clamp(i, max)\<close>\<close>
  "clamp i mx = min (max i 0) (mx - 1)"

definition index :: "PheromoneField \<Rightarrow> Vec \<Rightarrow> int \<times> int" where
  "index f pos =
     (let gx = \<lfloor>vec_x pos / cell f\<rfloor>;
          gy = \<lfloor>vec_y pos / cell f\<rfloor>
      in (clamp gx (gridW f), clamp gy (gridH f)))"

text \<open>
  Reading or updating \<open>g[x][y]\<close> outside the arrays does not yield a number in
  JavaScript (a \<open>TypeError\<close> for a missing column, \<open>undefined\<close> and then \<open>NaN\<close>
  for a missing row entry). The model makes every such access fail with \<open>None\<close>.
\<close>

definition in_grid :: "grid \<Rightarrow> int \<Rightarrow> int \<Rightarrow> bool" where
  "in_grid g x y \<longleftrightarrow> 0 \<le> x \<and> x < int (length g) \<and> 0 \<le> y \<and> y < int (length (g ! nat x))"

definition grid_get :: "grid \<Rightarrow> int \<Rightarrow> int \<Rightarrow> real option" where
  "grid_get g x y = (if in_grid g x y then Some (g ! nat x ! nat y) else None)"

definition grid_modify :: "grid \<Rightarrow> int \<Rightarrow> int \<Rightarrow> (real \<Rightarrow> real) \<Rightarrow> grid option" where
  \<comment> \<open>\<open>g[x][y] = h(g[x][y])\<close>\<close>
  "grid_modify g x y h =
     (if in_grid g x y then Some (g[nat x := (g ! nat x)[nat y := h (g ! nat x ! nat y)]])
      else None)"

definition grid_dims :: "grid \<Rightarrow> int \<Rightarrow> int \<Rightarrow> bool" where
  "grid_dims g w h \<longleftrightarrow> int (length g) = w \<and> list_all (\<lambda>col. int (length col) = h) g"

definition wf_field :: "PheromoneField \<Rightarrow> bool" where
  \<comment> \<open>what the constructor establishes: a positive cell size and three
      \<open>gridW \<times> gridH\<close> arrays with at least one cell\<close>
  "wf_field f \<longleftrightarrow>
     0 < cell f \<and> 1 \<le> gridW f \<and> 1 \<le> gridH f \<and>
     grid_dims (home f) (gridW f) (gridH f) \<and>
     grid_dims (food f) (gridW f) (gridH f) \<and>
     grid_dims (pathSuccess f) (gridW f) (gridH f)"

definition sample :: "PheromoneField \<Rightarrow> Vec \<Rightarrow> string \<Rightarrow> real option" where
  "sample f pos type =
     (let (gx, gy) = index f pos
      in if type = ''home'' then grid_get (home f) gx gy else grid_get (food f) gx gy)"

fun for_loop :: "('a \<Rightarrow> 's \<Rightarrow> 's option) \<Rightarrow> 'a list \<Rightarrow> 's \<Rightarrow> 's option" where
  \<comment> \<open>a \<open>for\<close> loop whose body may fail: the body runs on each element in order\<close>
  "for_loop body [] s = Some s"
| "for_loop body (a # as) s = (case body a s of None \<Rightarrow> None | Some s' \<Rightarrow> for_loop body as s')"

definition channel_modify ::
  "PheromoneField \<Rightarrow> string \<Rightarrow> int \<Rightarrow> int \<Rightarrow> (real \<Rightarrow> real) \<Rightarrow> PheromoneField option" where
  \<comment> \<open>\<open>if (type === 'home') this.home[x][y] = h(this.home[x][y]);
      else this.food[x][y] = h(this.food[x][y])\<close>\<close>
  "channel_modify f type x y h =
     (if type = ''home''
      then map_option (\<lambda>g. f\<lparr>home := g\<rparr>) (grid_modify (home f) x y h)
      else map_option (\<lambda>g. f\<lparr>food := g\<rparr>) (grid_modify (food f) x y h))"

definition spreadRadius :: int where
  "spreadRadius = 1"

definition spread_distance :: "int \<Rightarrow> int \<Rightarrow> real" where
  \<comment> \<open>\<open>Math.sqrt(dx * dx + dy * dy)\<close>\<close>
  "spread_distance dx dy = sqrt (real_of_int (dx * dx + dy * dy))"

definition spreadAmount :: "real \<Rightarrow> real \<Rightarrow> int \<Rightarrow> int \<Rightarrow> real" where
  "spreadAmount amt successBonus dx dy =
     amt * successBonus * (1 - spread_distance dx dy / real_of_int spreadRadius) * 0.3"

definition spread_cell ::
  "string \<Rightarrow> real \<Rightarrow> real \<Rightarrow> int \<Rightarrow> int \<Rightarrow> int \<Rightarrow> int \<Rightarrow> PheromoneField \<Rightarrow> PheromoneField option" where
  \<comment> \<open>the body of the two nested loops of \<open>deposit\<close>\<close>
  "spread_cell type amt successBonus gx gy dx dy f =
     (let nx = gx + dx; ny = gy + dy
      in if nx \<ge> 0 \<and> nx < gridW f \<and> ny \<ge> 0 \<and> ny < gridH f
         then (if spread_distance dx dy > 0 \<and> spread_distance dx dy \<le> real_of_int spreadRadius
               then channel_modify f type nx ny
                      (\<lambda>v. min (v + spreadAmount amt successBonus dx dy) 1000)
               else Some f)
         else Some f)"

definition deposit ::
  "PheromoneField \<Rightarrow> Vec \<Rightarrow> string \<Rightarrow> real \<Rightarrow> real \<Rightarrow> PheromoneField option" where
  "deposit f pos type amt successBonus =
     (case index f pos of (gx, gy) \<Rightarrow>
        do {
          f1 \<leftarrow> channel_modify f type gx gy (\<lambda>v. min (v + amt * successBonus) 1000);
          ps \<leftarrow> grid_modify (pathSuccess f1) gx gy (\<lambda>v. v + successBonus * 0.1);
          for_loop
            (\<lambda>dx. for_loop (spread_cell type amt successBonus gx gy dx)
                    [- spreadRadius .. spreadRadius])
            [- spreadRadius .. spreadRadius]
            (f1\<lparr>pathSuccess := ps\<rparr>)
        })"

definition gradient_estimate :: "PheromoneField \<Rightarrow> Vec \<Rightarrow> string \<Rightarrow> Vec option" where
  \<comment> \<open>the vector \<open>grad\<close> that \<open>gradient\<close> computes from its eight samples\<close>
  "gradient_estimate f pos type =
     (let delta = cell f * 0.8; px = vec_x pos; py = vec_y pos
      in do {
        right \<leftarrow> sample f (Vec (px + delta) py) type;
        left \<leftarrow> sample f (Vec (px - delta) py) type;
        down \<leftarrow> sample f (Vec px (py + delta)) type;
        up \<leftarrow> sample f (Vec px (py - delta)) type;
        upRight \<leftarrow> sample f (Vec (px + delta * 0.7) (py - delta * 0.7)) type;
        upLeft \<leftarrow> sample f (Vec (px - delta * 0.7) (py - delta * 0.7)) type;
        downRight \<leftarrow> sample f (Vec (px + delta * 0.7) (py + delta * 0.7)) type;
        downLeft \<leftarrow> sample f (Vec (px - delta * 0.7) (py + delta * 0.7)) type;
        let dx = (right - left) * 0.5 + (upRight - upLeft + downRight - downLeft) * 0.25;
        let dy = (down - up) * 0.5 + (downRight - upRight + downLeft - upLeft) * 0.25;
        Some (Vec dx dy)
      })"

definition gradient :: "PheromoneField \<Rightarrow> Vec \<Rightarrow> string \<Rightarrow> Vec option" where
  "gradient f pos type =
     do {
       grad \<leftarrow> gradient_estimate f pos type;
       Some (if magnitude grad > 0.1 then normalize grad else Vec 0 0)
     }"

definition factor :: "real \<Rightarrow> real" where
  \<comment> \<open>the double \<open>(1 - rate)\<close>\<close>
  "factor rate = fl (1 - rate)"

definition success_factor :: "real \<Rightarrow> real" where
  \<comment> \<open>the double \<open>(1 - rate * 0.3)\<close>; the literal \<open>0.3\<close> is itself the nearest double\<close>
  "success_factor rate = fl (1 - fl (rate * fl 0.3))"

definition evaporate_cell :: "real \<Rightarrow> int \<Rightarrow> int \<Rightarrow> PheromoneField \<Rightarrow> PheromoneField option" where
  \<comment> \<open>the body of the two nested loops of \<open>evaporate\<close>, in double arithmetic\<close>
  "evaporate_cell rate x y f =
     do {
       h1 \<leftarrow> grid_modify (home f) x y (\<lambda>v. fl (v * factor rate));
       f1 \<leftarrow> grid_modify (food f) x y (\<lambda>v. fl (v * factor rate));
       s1 \<leftarrow> grid_modify (pathSuccess f) x y (\<lambda>v. fl (v * success_factor rate));
       h2 \<leftarrow> grid_modify h1 x y (\<lambda>v. if v < fl 0.01 then 0 else v);
       f2 \<leftarrow> grid_modify f1 x y (\<lambda>v. if v < fl 0.01 then 0 else v);
       s2 \<leftarrow> grid_modify s1 x y (\<lambda>v. if v < fl 0.01 then 0 else v);
       Some (f\<lparr>home := h2, food := f2, pathSuccess := s2\<rparr>)
     }"

definition evaporate :: "real \<Rightarrow> PheromoneField \<Rightarrow> PheromoneField option" where
  "evaporate rate f =
     for_loop (\<lambda>x. for_loop (evaporate_cell rate x) [0 .. gridH f - 1]) [0 .. gridW f - 1] f"

definition reinforce_point :: "real \<Rightarrow> Vec \<Rightarrow> PheromoneField \<Rightarrow> PheromoneField option" where
  \<comment> \<open>the loop body of \<open>reinforcePath\<close>\<close>
  "reinforce_point strength pos f =
     (case index f pos of (gx, gy) \<Rightarrow>
        if gx \<ge> 0 \<and> gx < gridW f \<and> gy \<ge> 0 \<and> gy < gridH f
        then map_option (\<lambda>g. f\<lparr>pathSuccess := g\<rparr>)
               (grid_modify (pathSuccess f) gx gy (\<lambda>v. min (v + strength) 100))
        else Some f)"

definition reinforcePath :: "PheromoneField \<Rightarrow> Vec list \<Rightarrow> real \<Rightarrow> PheromoneField option" where
  \<comment> \<open>an empty path returns at once, which is what the loop does on it\<close>
  "reinforcePath f pathPoints strength = for_loop (reinforce_point strength) pathPoints f"

definition same_shape :: "PheromoneField \<Rightarrow> PheromoneField \<Rightarrow> bool" where
  \<comment> \<open>the second field is well formed and has the cell size and dimensions of the first\<close>
  "same_shape f f' \<longleftrightarrow> wf_field f' \<and> cell f' = cell f \<and> gridW f' = gridW f \<and> gridH f' = gridH f"

section \<open>Food sources\<close>

text \<open>
  The class \<open>Food\<close> of \<open>src/simulation.js\<close> (the spec's FoodSource).
  \<open>amount\<close> starts at 500 (or at the amount a preset stores) and only ever changes by
  the decrement below, so it is a whole number.
\<close>

record Food =
  food_pos :: Vec
  amount :: int
  food_radius :: real
  originalAmount :: int

definition containsAndTake :: "Food \<Rightarrow> Vec \<Rightarrow> bool \<times> Food" where
  \<comment> \<open>the returned flag, and the food source after the call\<close>
  "containsAndTake fd pos =
     (if amount fd \<le> 0 then (False, fd)
      else let d = magnitude (subtract pos (food_pos fd))
           in if d < food_radius fd then (True, fd\<lparr>amount := max 0 (amount fd - 1)\<rparr>)
              else (False, fd))"

definition isDepleted :: "Food \<Rightarrow> bool" where
  "isDepleted fd \<longleftrightarrow> amount fd \<le> 0"

fun takes :: "Food \<Rightarrow> Vec list \<Rightarrow> Food" where
  \<comment> \<open>one \<open>containsAndTake\<close> call after another, from the listed positions\<close>
  "takes fd [] = fd"
| "takes fd (p # ps) = takes (snd (containsAndTake fd p)) ps"

section \<open>Obstacles\<close>

text \<open>
  \<open>closestOnSeg\<close> and \<open>Obstacle.repulse\<close> of \<open>src/simulation.js\<close>. Of an obstacle only the
  centre \<open>pos\<close> and the polygon \<open>blob\<close> matter to \<open>repulse\<close>.
\<close>

record Obstacle =
  obstacle_pos :: Vec
  blob :: "Vec list"

text \<open>
  \<open>closestOnSeg\<close> is modelled in double arithmetic, every operation rounded. Its quotient
  has three special cases. When the squared length of the edge is the double 0 (the end
  points coincide, or they are so close that both squares underflow) and the numerator is 0
  as well, \<open>t\<close> is \<open>0/0 = NaN\<close>, and so are \<open>tt\<close> and both coordinates of the result: this
  is \<open>None\<close>. When only the denominator is 0, \<open>t\<close> is \<open>Infinity\<close> or \<open>-Infinity\<close>, which
  \<open>Math.max(0, Math.min(1, t))\<close> turns into 1 or 0.
\<close>

definition seg_dir :: "Vec \<Rightarrow> Vec \<Rightarrow> Vec" where
  \<comment> \<open>\<open>ab = b.subtract(a)\<close>\<close>
  "seg_dir a b = Vec (fl (vec_x b - vec_x a)) (fl (vec_y b - vec_y a))"

definition seg_den :: "Vec \<Rightarrow> Vec \<Rightarrow> real" where
  \<comment> \<open>\<open>ab.x * ab.x + ab.y * ab.y\<close>\<close>
  "seg_den a b =
     (let ab = seg_dir a b in fl (fl (vec_x ab * vec_x ab) + fl (vec_y ab * vec_y ab)))"

definition seg_num :: "Vec \<Rightarrow> Vec \<Rightarrow> Vec \<Rightarrow> real" where
  \<comment> \<open>\<open>(p.x - a.x) * ab.x + (p.y - a.y) * ab.y\<close>\<close>
  "seg_num a b p =
     (let ab = seg_dir a b
      in fl (fl (fl (vec_x p - vec_x a) * vec_x ab) + fl (fl (vec_y p - vec_y a) * vec_y ab)))"

definition closestOnSeg :: "Vec \<Rightarrow> Vec \<Rightarrow> Vec \<Rightarrow> Vec option" where
  "closestOnSeg a b p =
     (let ab = seg_dir a b; num = seg_num a b p; den = seg_den a b
      in if den = 0 \<and> num = 0 then None
         else let tt = (if den = 0 then (if 0 < num then 1 else 0)
                        else max 0 (min 1 (fl (num / den))))
              in Some (Vec (fl (vec_x a + fl (vec_x ab * tt)))
                           (fl (vec_y a + fl (vec_y ab * tt)))))"

definition in_range :: "Vec \<Rightarrow> bool" where
  \<comment> \<open>both coordinates are at most \<open>2 ^ 500\<close> in magnitude; on such vectors no operation of
      \<open>closestOnSeg\<close> and \<open>repulse\<close> overflows\<close>
  "in_range v \<longleftrightarrow> \<bar>vec_x v\<bar> \<le> 2 ^ 500 \<and> \<bar>vec_y v\<bar> \<le> 2 ^ 500"

datatype distance = Finite real | Infinity

definition repulse_edge :: "Vec \<Rightarrow> Vec list \<Rightarrow> nat \<Rightarrow> (real \<times> Vec) option \<Rightarrow> (real \<times> Vec) option" where
  \<comment> \<open>The loop body of \<open>repulse\<close> on the pair \<open>(minDist, closest)\<close>, which starts as
      \<open>(Infinity, null)\<close>, here \<open>None\<close>. A \<open>NaN\<close> distance fails the test \<open>d < minDist\<close>;
      every number passes it against \<open>Infinity\<close>.\<close>
  "repulse_edge pos pts i best =
     (let a = pts ! i; b = pts ! ((i + 1) mod length pts)
      in case closestOnSeg a b pos of
           None \<Rightarrow> best
         | Some cp \<Rightarrow>
             (let d = magnitude (subtract pos cp)
              in case best of
                   None \<Rightarrow> Some (d, cp)
                 | Some (minDist, closest) \<Rightarrow> if d < minDist then Some (d, cp) else best))"

definition repulse :: "Obstacle \<Rightarrow> Vec \<Rightarrow> real \<Rightarrow> Vec \<times> distance" where
  \<comment> \<open>the last argument is the value of \<open>Math.random()\<close> that \<open>Vec.random()\<close> draws\<close>
  "repulse ob pos r =
     (if blob ob = [] then (Vec 0 0, Infinity)
      else case fold (repulse_edge pos (blob ob)) [0 ..< length (blob ob)] None of
             None \<Rightarrow> (Vec 0 0, Infinity)
           | Some (minDist, closest) \<Rightarrow>
               (let away = subtract pos closest; mag = magnitude away
                in if mag < 0.1
                   then (let centerAway = subtract pos (obstacle_pos ob)
                         in if magnitude centerAway > 0.1 then (normalize centerAway, Finite 0)
                            else (random_vec r, Finite 0))
                   else (normalize away, Finite minDist)))"

section \<open>The nest and the ants\<close>

text \<open>
  The nest is the object \<open>simulation.nest\<close>; the stored food and the capacity are sums of
  whole numbers. Of \<open>Ant.update\<close> the model has the computation of \<open>maxSpeed\<close>, the speed
  update and the delivery of food to the nest.
\<close>

record Nest =
  nest_x :: real
  nest_y :: real
  nest_radius :: real
  foodStored :: int
  maxCapacity :: int
  efficiency :: real
  isFull :: bool

text \<open>The fields of an ant that the modelled parts of \<open>Ant.update\<close> read or write.\<close>

record Ant =
  position :: Vec
  velocity :: Vec
  hasFood :: bool
  path :: "Vec list"
  tripStartTime :: real
  momentum :: Vec
  lastFoodTime :: real
  maxSpeed :: real
  maxTurnRate :: real
  energy :: real

definition update_maxSpeed :: "Ant \<Rightarrow> Ant" where
  \<comment> \<open>the first two statements of \<open>Ant.update\<close>\<close>
  "update_maxSpeed a = (let energyFactor = max 0.3 (energy a / 100) in a\<lparr>maxSpeed := 3.0 * energyFactor\<rparr>)"

definition update_velocity :: "Ant \<Rightarrow> Vec \<Rightarrow> Ant" where
  \<comment> \<open>The speed update of \<open>Ant.update\<close>, from ``Apply smooth velocity changes'' to
      ``Limit maximum speed''; \<open>direction\<close> is the steering direction computed before it.\<close>
  "update_velocity a direction =
     (let targetSpeed = (if hasFood a then 2.5 else 3.0);
          acceleration = 0.1;
          currentSpeed = magnitude (velocity a);
          speedDiff = targetSpeed - currentSpeed;
          speedChange = sgn speedDiff * min \<bar>speedDiff\<bar> acceleration;
          v1 = (if magnitude (velocity a) > 0.1
                then (let currentAngle = angle (velocity a);
                          targetAngle = angle direction;
                          d0 = targetAngle - currentAngle;
                          d1 = (if d0 > pi then d0 - pi * 2 else d0);
                          d2 = (if d1 < - pi then d1 + pi * 2 else d1);
                          maxTurn = maxTurnRate a;
                          angleDiff = (if \<bar>d2\<bar> > maxTurn then sgn d2 * maxTurn else d2);
                          newAngle = currentAngle + angleDiff
                      in multiply (Vec (cos newAngle) (sin newAngle)) (currentSpeed + speedChange))
                else multiply direction targetSpeed);
          maxAllowedSpeed = maxSpeed a * 1.5
      in a\<lparr>velocity := (if magnitude v1 > maxAllowedSpeed
                         then multiply (normalize v1) maxAllowedSpeed else v1)\<rparr>)"

definition overallEfficiency :: "Ant \<Rightarrow> real \<Rightarrow> real" where
  \<comment> \<open>the delivery efficiency, from the path length and the time \<open>now\<close> of the delivery\<close>
  "overallEfficiency a now =
     (let tripDuration = now - lastFoodTime a;
          pathLength = real (length (path a));
          distanceEfficiency = max 0.5 (1 - (pathLength * 2) / 1000);
          timeEfficiency = max 0.5 (1 - tripDuration / 30000)
      in (distanceEfficiency + timeEfficiency) / 2)"

definition foodGained :: "Ant \<Rightarrow> real \<Rightarrow> int" where
  "foodGained a now = \<lfloor>1 + overallEfficiency a now\<rfloor>"

definition deliver ::
  "real \<Rightarrow> real \<Rightarrow> real \<Rightarrow> Ant \<Rightarrow> Nest \<times> PheromoneField \<Rightarrow> (Ant \<times> Nest \<times> PheromoneField) option" where
  \<comment> \<open>The food delivery at the end of \<open>Ant.update\<close>: the branch taken by an ant that has
      food. \<open>now\<close> and \<open>now2\<close> are the clock readings of the first and the second call of
      \<open>performance.now()\<close>, \<open>r\<close> the value \<open>Vec.random()\<close> draws.\<close>
  "deliver now now2 r a nf =
     (case nf of (n, f) \<Rightarrow>
      let nestDist = magnitude (subtract (position a) (Vec (nest_x n) (nest_y n)))
      in if nestDist < nest_radius n + 5
         then (if foodStored n \<ge> maxCapacity n
               then Some (a\<lparr>hasFood := False, path := [],
                            momentum := multiply (random_vec r) 0.3, tripStartTime := now\<rparr>,
                          n\<lparr>isFull := True\<rparr>, f)
               else (let n1 = n\<lparr>efficiency :=
                                   min 2.0 (efficiency n * 0.95 + overallEfficiency a now * 0.05)\<rparr>;
                         newTotal = foodStored n1 + foodGained a now;
                         n2 = (if newTotal \<ge> maxCapacity n1
                               then n1\<lparr>foodStored := maxCapacity n1, isFull := True\<rparr>
                               else n1\<lparr>foodStored := newTotal\<rparr>)
                     in do {
                          f' \<leftarrow> (if length (path a) > 3
                                 then reinforcePath f (path a) (overallEfficiency a now * 6)
                                 else Some f);
                          Some (a\<lparr>hasFood := False, energy := 100, path := [],
                                  momentum := multiply (random_vec r) 0.3, tripStartTime := now2\<rparr>,
                                n2, f')
                        }))
         else Some (a, n, f))"

fun deliveries ::
  "(real \<times> real \<times> real \<times> Ant) list \<Rightarrow> Nest \<times> PheromoneField \<Rightarrow> (Nest \<times> PheromoneField) option" where
  \<comment> \<open>a sequence of deliveries by ants carrying food, on the shared nest and field\<close>
  "deliveries [] nf = Some nf"
| "deliveries ((now, now2, r, a) # ds) nf =
     (case deliver now now2 r a nf of
        None \<Rightarrow> None
      | Some (a', n', f') \<Rightarrow> deliveries ds (n', f'))"

definition best_ok :: "Vec \<Rightarrow> (real \<times> Vec) option \<Rightarrow> bool" where
  \<comment> \<open>the loop invariant of \<open>repulse\<close>: \<open>minDist\<close> is the distance to \<open>closest\<close>\<close>
  "best_ok pos best \<longleftrightarrow>
     (case best of None \<Rightarrow> True | Some (d, cp) \<Rightarrow> d = magnitude (subtract pos cp))"

definition best_near :: "(real \<times> Vec) option \<Rightarrow> bool" where
  \<comment> \<open>a second loop invariant of \<open>repulse\<close>, for a polygon \<open>in_range\<close>\<close>
  "best_near best \<longleftrightarrow>
     (case best of None \<Rightarrow> True
      | Some (d, cp) \<Rightarrow> \<bar>vec_x cp\<bar> \<le> 2 ^ 502 \<and> \<bar>vec_y cp\<bar> \<le> 2 ^ 502)"

definition evaporated :: "real \<Rightarrow> real \<Rightarrow> real" where
  \<comment> \<open>what one pass of \<open>evaporate\<close> does to a cell, with the double \<open>c\<close> as factor:
      \<open>v *= c; if (v < 0.01) v = 0\<close>\<close>
  "evaporated c = (\<lambda>v. if fl (v * c) < fl 0.01 then 0 else fl (v * c))"

definition mapped_on :: "(int \<times> int) set \<Rightarrow> (real \<Rightarrow> real) \<Rightarrow> grid \<Rightarrow> grid \<Rightarrow> bool" where
  \<comment> \<open>loop invariant: \<open>g'\<close> is \<open>g\<close> with \<open>k\<close> applied to the cells in \<open>S\<close>\<close>
  "mapped_on S k g g' \<longleftrightarrow>
     length g' = length g \<and> (\<forall>i < length g. length (g' ! i) = length (g ! i)) \<and>
     (\<forall>i j. in_grid g i j \<longrightarrow>
        g' ! nat i ! nat j = (if (i, j) \<in> S then k (g ! nat i ! nat j) else g ! nat i ! nat j))"

fun evaporations :: "real \<Rightarrow> nat \<Rightarrow> PheromoneField \<Rightarrow> PheromoneField option" where
  \<comment> \<open>\<open>n\<close> calls of \<open>evaporate\<close> in a row, with no deposit in between\<close>
  "evaporations rate 0 f = Some f"
| "evaporations rate (Suc n) f = evaporate rate f \<bind> evaporations rate n"

definition grid_le :: "grid \<Rightarrow> grid \<Rightarrow> bool" where
  \<comment> \<open>same shape, and every cell of the first is at most the cell of the second\<close>
  "grid_le g' g \<longleftrightarrow> list_all2 (list_all2 (\<le>)) g' g"

definition grid_zero :: "grid \<Rightarrow> bool" where
  "grid_zero g \<longleftrightarrow> list_all (list_all (\<lambda>v. v = 0)) g"

definition grid_doubles :: "grid \<Rightarrow> bool" where
  \<comment> \<open>every cell is a double\<close>
  "grid_doubles g \<longleftrightarrow> list_all (list_all (\<lambda>v. fl v = v)) g"

definition doubles_field :: "PheromoneField \<Rightarrow> bool" where
  "doubles_field f \<longleftrightarrow>
     grid_doubles (home f) \<and> grid_doubles (food f) \<and> grid_doubles (pathSuccess f)"

definition grid_nonneg :: "grid \<Rightarrow> bool" where
  "grid_nonneg g \<longleftrightarrow> list_all (list_all (\<lambda>v. 0 \<le> v)) g"

definition nonneg_field :: "PheromoneField \<Rightarrow> bool" where
  "nonneg_field f \<longleftrightarrow> grid_nonneg (home f) \<and> grid_nonneg (food f) \<and> grid_nonneg (pathSuccess f)"

definition grid_bounded :: "real \<Rightarrow> grid \<Rightarrow> bool" where
  \<comment> \<open>every cell is at most \<open>c\<close>\<close>
  "grid_bounded c g \<longleftrightarrow> list_all (list_all (\<lambda>v. v \<le> c)) g"

fun deposits :: "PheromoneField \<Rightarrow> (Vec \<times> string \<times> real \<times> real) list \<Rightarrow> PheromoneField option" where
  \<comment> \<open>a sequence of \<open>deposit\<close> calls, each with its position, channel, amount and bonus\<close>
  "deposits f [] = Some f"
| "deposits f ((pos, type, amt, successBonus) # ds) =
     deposit f pos type amt successBonus \<bind> (\<lambda>f'. deposits f' ds)"

section \<open>Basic facts\<close>

lemma clamp_bounds: "1 \<le> mx \<Longrightarrow> 0 \<le> clamp i mx \<and> clamp i mx < mx"
  by (simp add: clamp_def)

lemma grid_dims_in_grid:
  "grid_dims g w h \<Longrightarrow> 0 \<le> x \<Longrightarrow> x < w \<Longrightarrow> 0 \<le> y \<Longrightarrow> y < h \<Longrightarrow> in_grid g x y"
  by (auto simp: grid_dims_def in_grid_def list_all_length)

lemma new_grid_dims: "0 \<le> w \<Longrightarrow> 0 \<le> h \<Longrightarrow> grid_dims (new_grid w h) w h"
  by (simp add: grid_dims_def new_grid_def list_all_length)

lemma new_PheromoneField_wf: "0 < c \<Longrightarrow> wf_field (new_PheromoneField w h c)"
  by (simp add: wf_field_def new_PheromoneField_def Let_def new_grid_dims)

lemma index_in_grid:
  assumes "wf_field f"
  shows "in_grid (home f) (fst (index f pos)) (snd (index f pos))"
    and "in_grid (food f) (fst (index f pos)) (snd (index f pos))"
    and "in_grid (pathSuccess f) (fst (index f pos)) (snd (index f pos))"
  using assms clamp_bounds[of "gridW f"] clamp_bounds[of "gridH f"]
  by (auto simp: wf_field_def index_def Let_def intro!: grid_dims_in_grid)

lemma grid_modify_Some:
  "in_grid g x y \<Longrightarrow>
   grid_modify g x y k = Some (g[nat x := (g ! nat x)[nat y := k (g ! nat x ! nat y)]])"
  by (simp add: grid_modify_def)

lemma grid_modify_SomeD:
  "grid_modify g x y k = Some g' \<Longrightarrow>
   in_grid g x y \<and> g' = g[nat x := (g ! nat x)[nat y := k (g ! nat x ! nat y)]]"
  by (auto simp: grid_modify_def split: if_splits)

lemma grid_modify_dims:
  "grid_dims g w h \<Longrightarrow> grid_modify g x y k = Some g' \<Longrightarrow> grid_dims g' w h"
  by (auto simp: grid_dims_def list_all_length nth_list_update in_grid_def dest!: grid_modify_SomeD)

lemma grid_modify_in_grid:
  "grid_modify g x y k = Some g' \<Longrightarrow> in_grid g' i j = in_grid g i j"
  by (auto simp: in_grid_def nth_list_update dest!: grid_modify_SomeD split: if_splits)

lemma grid_modify_at:
  assumes "grid_modify g x y k = Some g'" and "in_grid g i j"
  shows "g' ! nat i ! nat j = (if i = x \<and> j = y then k (g ! nat x ! nat y) else g ! nat i ! nat j)"
  using assms by (auto simp: in_grid_def nth_list_update dest!: grid_modify_SomeD)

lemma for_loop_append:
  "for_loop body (xs @ ys) s = Option.bind (for_loop body xs s) (for_loop body ys)"
  by (induction xs arbitrary: s) (auto split: option.splits)

lemma for_loop_invariant:
  assumes "P s"
    and "\<And>a t. a \<in> set xs \<Longrightarrow> P t \<Longrightarrow> \<exists>t'. body a t = Some t' \<and> P t'"
  shows "\<exists>t'. for_loop body xs s = Some t' \<and> P t'"
  using assms
proof (induction xs arbitrary: s)
  case Nil
  then show ?case by simp
next
  case (Cons a xs)
  from Cons.prems obtain t where t: "body a s = Some t" "P t" by fastforce
  from Cons.IH[OF t(2)] Cons.prems(2) t(1) show ?case by auto
qed

lemma for_loop_progress:
  assumes "distinct (pre @ xs)" and "Q pre s"
    and "\<And>p a t. a \<in> set xs \<Longrightarrow> a \<notin> set p \<Longrightarrow> Q p t \<Longrightarrow> \<exists>t'. body a t = Some t' \<and> Q (p @ [a]) t'"
  shows "\<exists>t'. for_loop body xs s = Some t' \<and> Q (pre @ xs) t'"
  using assms
proof (induction xs arbitrary: s pre)
  case Nil
  then show ?case by simp
next
  case (Cons a xs)
  from Cons.prems(1) have "a \<notin> set pre" by auto
  with Cons.prems obtain t where t: "body a s = Some t" "Q (pre @ [a]) t" by fastforce
  have "distinct ((pre @ [a]) @ xs)" using Cons.prems(1) by simp
  from Cons.IH[OF this t(2)] Cons.prems(3) t(1) show ?case by auto
qed

lemma same_shape_refl: "wf_field f \<Longrightarrow> same_shape f f"
  by (simp add: same_shape_def)

lemma same_shape_trans: "same_shape f g \<Longrightarrow> same_shape g h \<Longrightarrow> same_shape f h"
  by (simp add: same_shape_def)

lemma grid_modify_total:
  "grid_dims g w h \<Longrightarrow> 0 \<le> x \<Longrightarrow> x < w \<Longrightarrow> 0 \<le> y \<Longrightarrow> y < h \<Longrightarrow>
   \<exists>g'. grid_modify g x y k = Some g' \<and> grid_dims g' w h"
  using grid_dims_in_grid[of g w h x y] grid_modify_Some[of g x y k] grid_modify_dims[of g w h x y k]
  by auto

lemma channel_modify_total:
  assumes "wf_field f" "0 \<le> x" "x < gridW f" "0 \<le> y" "y < gridH f"
  shows "\<exists>f'. channel_modify f type x y k = Some f' \<and> same_shape f f' \<and>
              pathSuccess f' = pathSuccess f"
proof (cases "type = ''home''")
  case True
  from assms obtain g' where "grid_modify (home f) x y k = Some g'"
      "grid_dims g' (gridW f) (gridH f)"
    using grid_modify_total[of "home f" "gridW f" "gridH f" x y k] by (auto simp: wf_field_def)
  with True assms(1) show ?thesis
    by (simp add: channel_modify_def same_shape_def wf_field_def)
next
  case False
  from assms obtain g' where "grid_modify (food f) x y k = Some g'"
      "grid_dims g' (gridW f) (gridH f)"
    using grid_modify_total[of "food f" "gridW f" "gridH f" x y k] by (auto simp: wf_field_def)
  with False assms(1) show ?thesis
    by (simp add: channel_modify_def same_shape_def wf_field_def)
qed

lemma index_bounds:
  assumes "wf_field f" and "index f pos = (gx, gy)"
  shows "0 \<le> gx \<and> gx < gridW f \<and> 0 \<le> gy \<and> gy < gridH f"
  using assms clamp_bounds[of "gridW f"] clamp_bounds[of "gridH f"]
  by (auto simp: wf_field_def index_def Let_def)

lemma spread_cell_total:
  assumes "wf_field f"
  shows "\<exists>f'. spread_cell type amt b gx gy dx dy f = Some f' \<and> same_shape f f' \<and>
              pathSuccess f' = pathSuccess f"
proof -
  let ?nx = "gx + dx" and ?ny = "gy + dy"
  show ?thesis
  proof (cases "?nx \<ge> 0 \<and> ?nx < gridW f \<and> ?ny \<ge> 0 \<and> ?ny < gridH f \<and>
               spread_distance dx dy > 0 \<and> spread_distance dx dy \<le> real_of_int spreadRadius")
    case True
    then show ?thesis
      using channel_modify_total[OF assms, of ?nx ?ny]
      by (simp add: spread_cell_def Let_def)
  next
    case False
    then show ?thesis
      using assms by (auto simp: spread_cell_def Let_def same_shape_refl)
  qed
qed

lemma spread_loops_total:
  assumes "wf_field f"
  shows "\<exists>f'. for_loop (\<lambda>dx. for_loop (spread_cell type amt b gx gy dx) ys) xs f = Some f' \<and>
              same_shape f f' \<and> pathSuccess f' = pathSuccess f"
proof -
  let ?P = "\<lambda>t. same_shape f t \<and> pathSuccess t = pathSuccess f"
  have inner: "\<exists>t'. for_loop (spread_cell type amt b gx gy dx) ys t = Some t' \<and> ?P t'"
    if "?P t" for dx t
  proof (rule for_loop_invariant[where P = ?P, OF that])
    fix dy u assume "?P u"
    then have "wf_field u" by (simp add: same_shape_def)
    from spread_cell_total[OF this, of type amt b gx gy dx dy] \<open>?P u\<close>
    show "\<exists>t'. spread_cell type amt b gx gy dx dy u = Some t' \<and> ?P t'"
      by (auto intro: same_shape_trans)
  qed
  have "?P f" using assms by (simp add: same_shape_refl)
  then show ?thesis
    by (rule for_loop_invariant[where P = ?P]) (use inner in blast)
qed

lemma deposit_total:
  assumes "wf_field f"
  shows "\<exists>f'. deposit f pos type amt b = Some f' \<and> same_shape f f'"
proof -
  obtain gx gy where ix: "index f pos = (gx, gy)" by (cases "index f pos")
  note b = index_bounds[OF assms ix]
  from channel_modify_total[OF assms, of gx gy type "\<lambda>v. min (v + amt * b) 1000"] b
  obtain f1 where f1: "channel_modify f type gx gy (\<lambda>v. min (v + amt * b) 1000) = Some f1"
      "same_shape f f1" by auto
  then have wf1: "wf_field f1" and dims: "gridW f1 = gridW f" "gridH f1 = gridH f"
    by (simp_all add: same_shape_def)
  from grid_modify_total[of "pathSuccess f1" "gridW f" "gridH f" gx gy "\<lambda>v. v + b * 0.1"] b wf1 dims
  obtain ps where ps: "grid_modify (pathSuccess f1) gx gy (\<lambda>v. v + b * 0.1) = Some ps"
      "grid_dims ps (gridW f) (gridH f)" by (auto simp: wf_field_def)
  let ?f2 = "f1\<lparr>pathSuccess := ps\<rparr>"
  have s2: "same_shape f ?f2" using f1(2) ps(2) by (auto simp: same_shape_def wf_field_def)
  then have "wf_field ?f2" by (simp add: same_shape_def)
  from spread_loops_total[OF this, of type amt b gx gy "[- spreadRadius .. spreadRadius]"
      "[- spreadRadius .. spreadRadius]"]
  obtain f' where "for_loop (\<lambda>dx. for_loop (spread_cell type amt b gx gy dx)
      [- spreadRadius .. spreadRadius]) [- spreadRadius .. spreadRadius] ?f2 = Some f'"
      "same_shape ?f2 f'" by auto
  with ix f1(1) ps(1) s2 show ?thesis
    by (auto simp: deposit_def intro: same_shape_trans)
qed

lemma sample_total:
  assumes "wf_field f"
  shows "\<exists>v. sample f pos type = Some v"
  using index_in_grid[OF assms, of pos]
  by (auto simp: sample_def grid_get_def split: prod.splits)

section \<open>Facts about rounding\<close>

lemma pow2_pos [simp]: "0 < pow2 k"
  by (simp add: pow2_def)

lemma pow2_nonneg [simp]: "0 \<le> pow2 k"
  by (simp add: pow2_def)

lemma pow2_neq0 [simp]: "pow2 k \<noteq> 0"
  by (simp add: pow2_def)

lemma pow2_add: "pow2 (a + b) = pow2 a * pow2 b"
  by (simp add: pow2_def powr_add)

lemma pow2_diff: "pow2 (a - b) = pow2 a / pow2 b"
  by (simp add: pow2_def powr_diff)

lemma pow2_0 [simp]: "pow2 0 = 1"
  by (simp add: pow2_def)

lemma pow2_le_iff [simp]: "pow2 a \<le> pow2 b \<longleftrightarrow> a \<le> b"
  by (simp add: pow2_def)

lemma pow2_less_iff [simp]: "pow2 a < pow2 b \<longleftrightarrow> a < b"
  by (simp add: pow2_def)

lemma pow2_nat: "pow2 (int n) = 2 ^ n"
  by (simp add: pow2_def powr_realpow)

lemma pow2_neg_nat: "pow2 (- int n) = 1 / 2 ^ n"
  using pow2_diff[of 0 "int n"] by (simp add: pow2_nat)

lemma pow2_numeral [simp]: "pow2 (numeral w) = 2 ^ numeral w"
  using pow2_nat[of "numeral w"] by simp

lemma pow2_neg_numeral [simp]: "pow2 (- numeral w) = 1 / 2 ^ numeral w"
  using pow2_neg_nat[of "numeral w"] by simp

lemma pow2_1 [simp]: "pow2 1 = 2"
  by (simp add: pow2_def)

lemma pow2_m1 [simp]: "pow2 (- 1) = 1 / 2"
  using pow2_neg_nat[of 1] by simp

lemma pow2_of_int: "0 \<le> k \<Longrightarrow> pow2 k = real_of_int (2 ^ nat k)"
  using pow2_nat[of "nat k"] by simp

lemma rne_of_int [simp]: "rne (real_of_int n) = n"
  by (simp add: rne_def)

lemma rne_0 [simp]: "rne 0 = 0"
  by (simp add: rne_def)

lemma rne_bounds: "y - 1 / 2 \<le> real_of_int (rne y)" "real_of_int (rne y) \<le> y + 1 / 2"
  by (auto simp: rne_def Let_def) linarith+

lemma rne_mono: "x \<le> y \<Longrightarrow> rne x \<le> rne y"
proof -
  assume xy: "x \<le> y"
  then have f: "\<lfloor>x\<rfloor> \<le> \<lfloor>y\<rfloor>" by (rule floor_mono)
  show ?thesis
  proof (cases "\<lfloor>x\<rfloor> = \<lfloor>y\<rfloor>")
    case True
    with xy show ?thesis by (auto simp: rne_def Let_def)
  next
    case False
    with f have "\<lfloor>x\<rfloor> + 1 \<le> \<lfloor>y\<rfloor>" by simp
    moreover have "rne x \<le> \<lfloor>x\<rfloor> + 1" by (auto simp: rne_def Let_def)
    moreover have "\<lfloor>y\<rfloor> \<le> rne y" by (auto simp: rne_def Let_def)
    ultimately show ?thesis by linarith
  qed
qed

lemma rne_le: "y \<le> real_of_int n \<Longrightarrow> rne y \<le> n"
  using rne_mono[of y "real_of_int n"] by simp

lemma rne_ge: "real_of_int n \<le> y \<Longrightarrow> n \<le> rne y"
  using rne_mono[of "real_of_int n" y] by simp

lemma rne_small: "0 \<le> y \<Longrightarrow> y < 1 / 2 \<Longrightarrow> rne y = 0"
proof -
  assume "0 \<le> y" "y < 1 / 2"
  then have "\<lfloor>y\<rfloor> = 0" by (intro floor_eq2) simp_all
  with \<open>y < 1 / 2\<close> show ?thesis by (simp add: rne_def)
qed

lemma expo_ge_min: "- 1074 \<le> expo x"
  by (simp add: expo_def)

lemma expo_le:
  assumes "x \<noteq> 0" and "\<bar>x\<bar> < pow2 (k + 53)" and "- 1074 \<le> k"
  shows "expo x \<le> k"
proof -
  from assms(1,2) have "log 2 \<bar>x\<bar> < real_of_int (k + 53)"
    by (simp add: pow2_def log_less_iff)
  then have "\<lfloor>log 2 \<bar>x\<bar>\<rfloor> < k + 53" by (simp add: floor_less_iff)
  with assms(3) show ?thesis by (simp add: expo_def)
qed

lemma expo_ge:
  assumes "x \<noteq> 0" and "pow2 (k + 52) \<le> \<bar>x\<bar>"
  shows "k \<le> expo x"
proof -
  from assms have "real_of_int (k + 52) \<le> log 2 \<bar>x\<bar>"
    by (simp add: pow2_def le_log_iff)
  then have "k + 52 \<le> \<lfloor>log 2 \<bar>x\<bar>\<rfloor>" by (simp add: le_floor_iff)
  then show ?thesis by (simp add: expo_def)
qed

lemma abs_less_expo:
  assumes "x \<noteq> 0"
  shows "\<bar>x\<bar> < pow2 (expo x + 53)"
proof -
  have "\<bar>x\<bar> < pow2 (\<lfloor>log 2 \<bar>x\<bar>\<rfloor> + 1)"
    unfolding pow2_def using assms by (subst less_powr_iff) simp_all
  also have "\<dots> \<le> pow2 (expo x + 53)" by (simp add: expo_def)
  finally show ?thesis .
qed

lemma normal_ge_expo:
  assumes "x \<noteq> 0" and "- 1074 < expo x"
  shows "pow2 (expo x + 52) \<le> \<bar>x\<bar>"
proof -
  from assms(2) have e: "expo x = \<lfloor>log 2 \<bar>x\<bar>\<rfloor> - 52" by (simp add: expo_def max_def split: if_splits)
  have "pow2 \<lfloor>log 2 \<bar>x\<bar>\<rfloor> \<le> \<bar>x\<bar>"
    using assms(1) by (simp add: pow2_def powr_le_iff)
  with e show ?thesis by simp
qed

lemma expo_mono:
  assumes "0 < x" and "x \<le> y"
  shows "expo x \<le> expo y"
proof -
  from assms have "log 2 \<bar>x\<bar> \<le> log 2 \<bar>y\<bar>" by (intro log_mono) simp_all
  then have "\<lfloor>log 2 \<bar>x\<bar>\<rfloor> \<le> \<lfloor>log 2 \<bar>y\<bar>\<rfloor>" by (rule floor_mono)
  then show ?thesis by (simp add: expo_def)
qed

lemma fl_0 [simp]: "fl 0 = 0"
  by (simp add: fl_def)

lemma fl_nonneg: "0 \<le> x \<Longrightarrow> 0 \<le> fl x"
proof -
  assume "0 \<le> x"
  then have "real_of_int 0 \<le> x / pow2 (expo x)" by simp
  then have "0 \<le> rne (x / pow2 (expo x))" by (rule rne_ge)
  then show ?thesis by (simp add: fl_def)
qed

lemma fl_nonpos: "x \<le> 0 \<Longrightarrow> fl x \<le> 0"
proof -
  assume "x \<le> 0"
  then have "x / pow2 (expo x) \<le> real_of_int 0" by (simp add: divide_le_0_iff)
  then have "rne (x / pow2 (expo x)) \<le> 0" by (rule rne_le)
  then show ?thesis by (simp add: fl_def mult_le_0_iff)
qed

lemma fl_exact:
  assumes "x = real_of_int m * pow2 k" and "\<bar>m\<bar> < 2 ^ 53" and "- 1074 \<le> k"
  shows "fl x = x"
proof (cases "m = 0")
  case True
  with assms(1) show ?thesis by simp
next
  case False
  with assms(1) have nz: "x \<noteq> 0" by simp
  have "\<bar>x\<bar> = real_of_int \<bar>m\<bar> * pow2 k" using assms(1) by (simp add: abs_mult)
  also have "\<dots> < 2 ^ 53 * pow2 k"
    using assms(2) by (intro mult_strict_right_mono) (simp_all add: of_int_less_iff[symmetric, where 'a = real] del: of_int_less_iff)
  also have "\<dots> = pow2 (k + 53)" by (simp add: pow2_add)
  finally have e: "expo x \<le> k" using nz assms(3) by (intro expo_le)
  define e where "e = expo x"
  define d where "d = k - e"
  from e have d: "0 \<le> d" "k = e + d" by (simp_all add: d_def e_def)
  have x: "x = real_of_int (m * 2 ^ nat d) * pow2 e"
    using assms(1) pow2_of_int[OF d(1)] by (simp add: d(2) pow2_add mult.commute)
  then have "x / pow2 e = real_of_int (m * 2 ^ nat d)" by simp
  then have "rne (x / pow2 e) = m * 2 ^ nat d" by (simp only: rne_of_int)
  then have "fl x = real_of_int (m * 2 ^ nat d) * pow2 e" by (simp add: fl_def e_def)
  with x show ?thesis by simp
qed

lemma fl_pow2: "- 1074 \<le> k \<Longrightarrow> fl (pow2 k) = pow2 k"
  using fl_exact[of "pow2 k" 1 k] by simp

lemma fl_upper:
  assumes "0 < x"
  shows "fl x \<le> pow2 (expo x + 53)"
proof -
  from abs_less_expo[of x] assms have "x < 2 ^ 53 * pow2 (expo x)" by (simp add: pow2_add)
  then have "x / pow2 (expo x) \<le> real_of_int (2 ^ 53)" by (simp add: pos_divide_le_eq)
  then have "rne (x / pow2 (expo x)) \<le> 2 ^ 53" by (rule rne_le)
  then have "real_of_int (rne (x / pow2 (expo x))) \<le> 2 ^ 53"
    by (metis of_int_le_iff of_int_numeral of_int_power)
  then have "fl x \<le> 2 ^ 53 * pow2 (expo x)"
    by (simp add: fl_def mult_right_mono)
  then show ?thesis by (simp add: pow2_add)
qed

lemma fl_lower:
  assumes "0 < x" and "- 1074 < expo x"
  shows "pow2 (expo x + 52) \<le> fl x"
proof -
  from normal_ge_expo[of x] assms have "2 ^ 52 * pow2 (expo x) \<le> x" by (simp add: pow2_add)
  then have "real_of_int (2 ^ 52) \<le> x / pow2 (expo x)" by (simp add: pos_le_divide_eq)
  then have "2 ^ 52 \<le> rne (x / pow2 (expo x))" by (rule rne_ge)
  then have "2 ^ 52 \<le> real_of_int (rne (x / pow2 (expo x)))"
    by (metis of_int_le_iff of_int_numeral of_int_power)
  then have "2 ^ 52 * pow2 (expo x) \<le> fl x"
    by (simp add: fl_def mult_right_mono)
  then show ?thesis by (simp add: pow2_add)
qed

lemma fl_mono:
  assumes "0 \<le> x" and "x \<le> y"
  shows "fl x \<le> fl y"
proof (cases "x = 0")
  case True
  with assms show ?thesis by (simp add: fl_nonneg)
next
  case False
  with assms have x: "0 < x" and y: "0 < y" by simp_all
  from expo_mono[OF x assms(2)] consider "expo x = expo y" | "expo x < expo y" by linarith
  then show ?thesis
  proof cases
    case 1
    from assms(2) have "x / pow2 (expo y) \<le> y / pow2 (expo y)" by (simp add: divide_right_mono)
    then have "rne (x / pow2 (expo y)) \<le> rne (y / pow2 (expo y))" by (rule rne_mono)
    with 1 show ?thesis by (simp add: fl_def mult_right_mono)
  next
    case 2
    then have "- 1074 < expo y" using expo_ge_min[of x] by linarith
    from fl_lower[OF y this] have "pow2 (expo y + 52) \<le> fl y" .
    moreover from 2 have "pow2 (expo x + 53) \<le> pow2 (expo y + 52)" by simp
    ultimately show ?thesis using fl_upper[OF x] by linarith
  qed
qed

lemma rne_abs_le:
  assumes "\<bar>y\<bar> \<le> real_of_int n"
  shows "\<bar>rne y\<bar> \<le> n"
proof -
  from assms have "y \<le> real_of_int n" "real_of_int (- n) \<le> y" by simp_all
  then have "rne y \<le> n" "- n \<le> rne y" by (auto intro: rne_le rne_ge)
  then show ?thesis by simp
qed

lemma fl_idem: "fl (fl x) = fl x"
proof (cases "x = 0")
  case True
  then show ?thesis by simp
next
  case False
  define e where "e = expo x"
  define n where "n = rne (x / pow2 e)"
  have e: "- 1074 \<le> e" by (simp add: e_def expo_ge_min)
  have f: "fl x = real_of_int n * pow2 e" by (simp add: fl_def n_def e_def)
  from abs_less_expo[OF False] have "\<bar>x\<bar> < 2 ^ 53 * pow2 e" by (simp add: pow2_add e_def)
  then have "\<bar>x / pow2 e\<bar> \<le> real_of_int (2 ^ 53)" by (simp add: pos_divide_le_eq)
  then have n: "\<bar>n\<bar> \<le> 2 ^ 53" unfolding n_def by (rule rne_abs_le)
  show ?thesis
  proof (cases "\<bar>n\<bar> < 2 ^ 53")
    case True
    from fl_exact[OF f True e] show ?thesis .
  next
    case False
    with n have "n = 2 ^ 53 \<or> n = - (2 ^ 53)" by linarith
    then have "fl x = real_of_int (n div 2) * pow2 (e + 1)" "\<bar>n div 2\<bar> < 2 ^ 53"
      using f by (auto simp: pow2_add)
    from fl_exact[OF this] e show ?thesis by simp
  qed
qed

lemma fl_1 [simp]: "fl 1 = 1"
  using fl_pow2[of 0] by simp

lemma fl_of_int: "\<bar>m\<bar> < 2 ^ 53 \<Longrightarrow> fl (real_of_int m) = real_of_int m"
  using fl_exact[of "real_of_int m" m 0] by simp

lemma fl_numeral: "(numeral w :: int) < 2 ^ 53 \<Longrightarrow> fl (numeral w) = numeral w"
  using fl_of_int[of "numeral w"] by simp

lemma fl_half [simp]: "fl (1 / 2) = 1 / 2"
  using fl_pow2[of "- 1"] by simp

lemma fl_below_one: "fl (1 - 1 / 2 ^ 53) = 1 - 1 / 2 ^ 53"
  by (rule fl_exact[where m = "2 ^ 53 - 1" and k = "- 53"]) simp_all

lemma fl_less_one:
  assumes "fl x < 1"
  shows "fl x \<le> 1 - 1 / 2 ^ 53"
proof -
  have "x < 1"
  proof (rule ccontr)
    assume "\<not> x < 1"
    then have "fl 1 \<le> fl x" by (intro fl_mono) simp_all
    with assms show False by simp
  qed
  then have "x \<le> 1 - 1 / 2 ^ 53 \<or> (1 - 1 / 2 ^ 53 < x \<and> x < 1)" by linarith
  then show ?thesis
  proof
    assume le: "x \<le> 1 - 1 / 2 ^ 53"
    show ?thesis
    proof (cases "0 \<le> x")
      case True
      from fl_mono[OF True le] show ?thesis by (simp only: fl_below_one)
    next
      case False
      then have "fl x \<le> 0" by (intro fl_nonpos) simp
      then show ?thesis by simp
    qed
  next
    assume x: "1 - 1 / 2 ^ 53 < x \<and> x < 1"
    then have nz: "x \<noteq> 0" and pos: "0 < x" by simp_all
    have "expo x \<le> - 53" using x by (intro expo_le[OF nz]) simp_all
    moreover have "- 53 \<le> expo x" using x by (intro expo_ge[OF nz]) simp_all
    ultimately have e: "expo x = - 53" by simp
    define n where "n = rne (x / pow2 (- 53))"
    have f: "fl x = real_of_int n / 2 ^ 53" by (simp add: fl_def e n_def)
    with assms have "real_of_int n < real_of_int (2 ^ 53)" by simp
    then have "n < 2 ^ 53" by (simp only: of_int_less_iff)
    then have "n \<le> 2 ^ 53 - 1" by simp
    then have "real_of_int n \<le> real_of_int (2 ^ 53 - 1)" by (simp only: of_int_le_iff)
    then show ?thesis by (simp add: f field_simps)
  qed
qed

lemma double_quantum:
  assumes "fl v = v" and "pow2 (- 7) \<le> v"
  shows "\<exists>j::int. v = real_of_int j / 2 ^ 59"
proof -
  from assms(2) have pos: "0 < v" using pow2_pos[of "- 7"] by linarith
  then have nz: "v \<noteq> 0" by simp
  have e: "- 59 \<le> expo v" using assms(2) pos by (intro expo_ge[OF nz]) simp
  define d where "d = expo v + 59"
  from e have d: "0 \<le> d" "expo v = d + (- 59)" by (simp_all add: d_def)
  have "pow2 (expo v) = real_of_int (2 ^ nat d) / 2 ^ 59"
    using pow2_of_int[OF d(1)] pow2_add[of d "- 59"] by (simp add: d(2))
  then have "fl v = real_of_int (rne (v / pow2 (expo v)) * 2 ^ nat d) / 2 ^ 59"
    by (simp add: fl_def)
  with assms(1) show ?thesis by metis
qed

lemma double_gap:
  assumes "fl w = w" "fl v = v" "pow2 (- 7) \<le> w" "w < v"
  shows "w \<le> v - 1 / 2 ^ 59"
proof -
  from double_quantum[OF assms(1,3)] obtain i :: int where i: "w = real_of_int i / 2 ^ 59" by blast
  from assms(3,4) have "pow2 (- 7) \<le> v" by simp
  from double_quantum[OF assms(2) this] obtain j :: int where j: "v = real_of_int j / 2 ^ 59" by blast
  from assms(4) i j have "real_of_int i < real_of_int j" by (simp add: divide_less_cancel)
  then have "i \<le> j - 1" by simp
  then have "real_of_int i \<le> real_of_int (j - 1)" by (simp only: of_int_le_iff)
  then show ?thesis by (simp add: i j field_simps)
qed

lemma fl_decrease:
  assumes v: "fl v = v" and big: "pow2 (- 7) \<le> v" and c: "0 \<le> c" "c \<le> 1 - 1 / 2 ^ 53"
  shows "fl (v * c) < v"
proof -
  from big have pos: "0 < v" using pow2_pos[of "- 7"] by linarith
  then have nz: "v \<noteq> 0" by simp
  define e where "e = expo v"
  define m where "m = rne (v / pow2 e)"
  have e: "- 59 \<le> e" unfolding e_def using big pos by (intro expo_ge[OF nz]) simp
  have vm: "v = real_of_int m * pow2 e" using v by (simp add: fl_def m_def e_def)
  then have q: "v / pow2 e = real_of_int m" by simp
  from normal_ge_expo[OF nz] e pos have "2 ^ 52 * pow2 e \<le> v" by (simp add: e_def pow2_add)
  then have "real_of_int (2 ^ 52) \<le> v / pow2 e" by (simp add: pos_le_divide_eq)
  with q have m_lo: "2 ^ 52 \<le> m" by (simp only: of_int_le_iff)
  from abs_less_expo[OF nz] pos have "v < 2 ^ 53 * pow2 e" by (simp add: e_def pow2_add)
  then have "v / pow2 e < real_of_int (2 ^ 53)" by (simp add: pos_divide_less_eq)
  with q have m_hi: "m < 2 ^ 53" by (simp only: of_int_less_iff)
  define y where "y = v * (1 - 1 / 2 ^ 53)"
  have "v * c \<le> y" unfolding y_def using c(2) pos by (intro mult_left_mono) simp_all
  moreover have "0 \<le> v * c" using c(1) pos by simp
  ultimately have le: "fl (v * c) \<le> fl y" by (intro fl_mono)
  have "fl y < v"
  proof (cases "m = 2 ^ 52")
    case True
    have "y = real_of_int (2 ^ 53 - 1) * pow2 (e - 1)"
      by (simp add: y_def vm True pow2_diff field_simps)
    from fl_exact[OF this] e have "fl y = y" by simp
    moreover have "y < v" unfolding y_def using pos by (simp add: field_simps)
    ultimately show ?thesis by simp
  next
    case False
    with m_lo have m1: "2 ^ 52 + 1 \<le> m" by simp
    have yq: "y / pow2 e = real_of_int m - real_of_int m / 2 ^ 53"
      by (simp add: y_def vm field_simps)
    from m1 have r1: "real_of_int (2 ^ 52 + 1) \<le> real_of_int m" by (simp only: of_int_le_iff)
    from m_hi have r2: "real_of_int m < real_of_int (2 ^ 53)" by (simp only: of_int_less_iff)
    have ypos: "0 < y" unfolding y_def using pos by simp
    then have ynz: "y \<noteq> 0" by simp
    have "y < v" unfolding y_def using pos by (simp add: field_simps)
    with abs_less_expo[OF nz] pos ypos have "\<bar>y\<bar> < pow2 (e + 53)" by (simp add: e_def)
    then have e1: "expo y \<le> e" using e by (intro expo_le[OF ynz]) simp_all
    have "real_of_int (2 ^ 52) \<le> y / pow2 e" using r1 r2 by (simp add: yq)
    then have "2 ^ 52 * pow2 e \<le> y" by (simp add: pos_le_divide_eq)
    then have "pow2 (e + 52) \<le> \<bar>y\<bar>" using ypos by (simp add: pow2_add)
    then have e2: "e \<le> expo y" by (intro expo_ge[OF ynz])
    from e1 e2 have ey: "expo y = e" by simp
    have "real_of_int (rne (y / pow2 e)) \<le> y / pow2 e + 1 / 2" by (rule rne_bounds)
    also have "\<dots> < real_of_int m" using r1 by (simp add: yq)
    finally have "rne (y / pow2 e) < m" by (simp only: of_int_less_iff)
    then have "real_of_int (rne (y / pow2 e)) < real_of_int m" by (simp only: of_int_less_iff)
    then have "fl y < real_of_int m * pow2 e" by (simp add: fl_def ey)
    with vm show ?thesis by simp
  qed
  with le show ?thesis by simp
qed

lemma rne_small_abs:
  assumes "\<bar>y\<bar> < 1 / 2"
  shows "rne y = 0"
proof -
  from rne_bounds[of y] assms have "real_of_int (rne y) < 1" "- 1 < real_of_int (rne y)"
    by linarith+
  then show ?thesis by linarith
qed

lemma fl_underflow:
  assumes "\<bar>x\<bar> < pow2 (- 1075)"
  shows "fl x = 0"
proof (cases "x = 0")
  case True
  then show ?thesis by simp
next
  case False
  from assms have "\<bar>x\<bar> < pow2 (- 1074 + 53)"
    by (rule less_le_trans) simp
  then have "expo x \<le> - 1074" by (intro expo_le[OF False]) simp_all
  with expo_ge_min[of x] have e: "expo x = - 1074" by simp
  have "pow2 (- 1075) = pow2 (- 1074) / 2" using pow2_diff[of "- 1074" 1] by simp
  with assms have "\<bar>x / pow2 (- 1074)\<bar> < 1 / 2" by (simp add: pos_divide_less_eq)
  then have "rne (x / pow2 (- 1074)) = 0" by (rule rne_small_abs)
  then show ?thesis by (simp add: fl_def e)
qed

lemma rne_neg: "rne (- y) = - rne y"
proof (cases "y = real_of_int \<lfloor>y\<rfloor>")
  case True
  then have "rne y = \<lfloor>y\<rfloor>" by (metis rne_of_int)
  moreover from True have "- y = real_of_int (- \<lfloor>y\<rfloor>)" by simp
  then have "rne (- y) = - \<lfloor>y\<rfloor>" by (metis rne_of_int)
  ultimately show ?thesis by simp
next
  case False
  define n where "n = \<lfloor>y\<rfloor>"
  define r where "r = y - real_of_int n"
  from False have r: "0 < r" "r < 1" unfolding r_def n_def by linarith+
  have fn: "\<lfloor>- y\<rfloor> = - n - 1"
    using r by (intro floor_eq2) (simp_all add: r_def)
  have rn: "- y - real_of_int (- n - 1) = 1 - r" by (simp add: r_def)
  have a: "rne y = (if r < 1 / 2 then n else if r > 1 / 2 then n + 1
                    else if even n then n else n + 1)"
    by (simp add: rne_def n_def r_def)
  have b: "rne (- y) = (if 1 - r < 1 / 2 then - n - 1 else if 1 - r > 1 / 2 then - n
                        else if even (- n - 1) then - n - 1 else - n)"
    unfolding rne_def Let_def fn rn by simp
  show ?thesis unfolding a b using r by (auto simp: field_simps)
qed

lemma expo_neg [simp]: "expo (- x) = expo x"
  by (simp add: expo_def)

lemma fl_neg: "fl (- x) = - fl x"
  by (simp add: fl_def rne_neg)

lemma fl_abs_le:
  assumes "\<bar>x\<bar> \<le> pow2 k" and "- 1074 \<le> k"
  shows "\<bar>fl x\<bar> \<le> pow2 k"
proof (cases "0 \<le> x")
  case True
  with assms(1) have "fl x \<le> fl (pow2 k)" by (intro fl_mono) simp_all
  with fl_nonneg[OF True] assms(2) show ?thesis by (simp add: fl_pow2)
next
  case False
  then have n: "0 \<le> - x" by simp
  with assms(1) have "fl (- x) \<le> fl (pow2 k)" by (intro fl_mono) simp_all
  with fl_nonneg[OF n] assms(2) show ?thesis by (simp add: fl_pow2 fl_neg)
qed

lemma fl_ge_pow2:
  assumes "pow2 k \<le> x" and "- 1074 \<le> k"
  shows "pow2 k \<le> fl x"
  using fl_mono[of "pow2 k" x] assms by (simp add: fl_pow2)

section \<open>Grid indexing\<close>

text \<open>
  Claim C1. For every position, negative or beyond the arena included, \<open>index\<close> of a
  field as the constructor builds it returns a cell \<open>(gx, gy)\<close> with
  \<open>0 \<le> gx < gridW\<close> and \<open>0 \<le> gy < gridH\<close>; the accesses that go through it
  (\<open>sample\<close>, \<open>deposit\<close>) therefore never leave the arrays.
\<close>

theorem index_in_bounds:
  assumes "wf_field f"
  shows "0 \<le> fst (index f pos) \<and> fst (index f pos) < gridW f \<and>
         0 \<le> snd (index f pos) \<and> snd (index f pos) < gridH f \<and>
         (\<exists>v. sample f pos type = Some v) \<and>
         (\<exists>f'. deposit f pos type amt successBonus = Some f')"
  using index_bounds[OF assms, of pos "fst (index f pos)" "snd (index f pos)"]
    sample_total[OF assms, of pos type] deposit_total[OF assms, of pos type amt successBonus]
  by auto

theorem index_in_bounds_witness:
  "wf_field (new_PheromoneField 12 12 6) \<and>
   index (new_PheromoneField 12 12 6) (Vec (- 5) 100) = (0, 1) \<and>
   (\<exists>v. sample (new_PheromoneField 12 12 6) (Vec (- 5) 100) ''food'' = Some v)"
proof -
  have w: "wf_field (new_PheromoneField 12 12 6)"
    by (rule new_PheromoneField_wf) simp
  have "index (new_PheromoneField 12 12 6) (Vec (- 5) 100) = (0, 1)"
    by (simp add: index_def new_PheromoneField_def clamp_def)
  with w index_in_bounds[OF w, of "Vec (- 5) 100" "''food''" 12 1] show ?thesis by blast
qed

section \<open>Vectors\<close>

lemma magnitude_nonneg: "0 \<le> magnitude u"
  by (simp add: magnitude_def)

lemma magnitude_axis: "magnitude (Vec a 0) = \<bar>a\<bar>" "magnitude (Vec 0 b) = \<bar>b\<bar>"
  by (simp_all add: magnitude_def)

lemma magnitude_multiply: "magnitude (multiply u s) = magnitude u * \<bar>s\<bar>"
proof -
  have "vec_x u * s * (vec_x u * s) + vec_y u * s * (vec_y u * s) =
        (vec_x u * vec_x u + vec_y u * vec_y u) * s\<^sup>2"
    by (simp add: power2_eq_square algebra_simps)
  then show ?thesis
    by (simp add: magnitude_def multiply_def real_sqrt_mult)
qed

lemma magnitude_divide: "magnitude (divide_vec u s) = magnitude u / \<bar>s\<bar>"
proof -
  have "vec_x u / s * (vec_x u / s) + vec_y u / s * (vec_y u / s) =
        (vec_x u * vec_x u + vec_y u * vec_y u) / s\<^sup>2"
    by (simp add: power2_eq_square add_divide_distrib)
  then show ?thesis
    by (simp add: magnitude_def divide_vec_def real_sqrt_divide)
qed

lemma magnitude_normalize: "magnitude u > 0 \<Longrightarrow> magnitude (normalize u) = 1"
  by (simp add: normalize_def Let_def magnitude_divide)

lemma magnitude_random_vec: "magnitude (random_vec r) = 1"
  by (simp add: random_vec_def Let_def magnitude_def flip: power2_eq_square)


section \<open>Taking food\<close>

lemma containsAndTake_flag:
  "fst (containsAndTake fd p) \<longleftrightarrow>
     amount fd > 0 \<and> magnitude (subtract p (food_pos fd)) < food_radius fd"
  by (simp add: containsAndTake_def Let_def)

lemma containsAndTake_success:
  "fst (containsAndTake fd p) \<Longrightarrow> snd (containsAndTake fd p) = fd\<lparr>amount := amount fd - 1\<rparr>"
  by (auto simp: containsAndTake_def Let_def split: if_splits)

lemma containsAndTake_failure:
  "\<not> fst (containsAndTake fd p) \<Longrightarrow> snd (containsAndTake fd p) = fd"
  by (auto simp: containsAndTake_def Let_def split: if_splits)

lemma containsAndTake_fields:
  "food_pos (snd (containsAndTake fd p)) = food_pos fd"
  "food_radius (snd (containsAndTake fd p)) = food_radius fd"
  "originalAmount (snd (containsAndTake fd p)) = originalAmount fd"
  by (simp_all add: containsAndTake_def Let_def)

lemma containsAndTake_amount_inside:
  "magnitude (subtract p (food_pos fd)) < food_radius fd \<Longrightarrow>
   amount (snd (containsAndTake fd p)) = (if amount fd > 0 then amount fd - 1 else amount fd)"
  by (simp add: containsAndTake_def Let_def)

lemma takes_amount_inside:
  "\<forall>p \<in> set ps. magnitude (subtract p (food_pos fd)) < food_radius fd \<Longrightarrow>
   amount (takes fd ps) = (if amount fd > 0 then max 0 (amount fd - int (length ps)) else amount fd)"
proof (induction ps arbitrary: fd)
  case Nil
  then show ?case by simp
next
  case (Cons p ps)
  let ?fd = "snd (containsAndTake fd p)"
  have "\<forall>q \<in> set ps. magnitude (subtract q (food_pos ?fd)) < food_radius ?fd"
    using Cons.prems by (simp add: containsAndTake_fields)
  from Cons.IH[OF this] have
    "amount (takes fd (p # ps)) =
       (if amount ?fd > 0 then max 0 (amount ?fd - int (length ps)) else amount ?fd)"
    by simp
  moreover have "amount ?fd = (if amount fd > 0 then amount fd - 1 else amount fd)"
    using Cons.prems by (simp add: containsAndTake_amount_inside)
  ultimately show ?case
    by (cases "amount fd > 1"; cases "amount fd > 0") simp_all
qed

lemma containsAndTake_nonneg:
  "0 \<le> amount fd \<Longrightarrow> 0 \<le> amount (snd (containsAndTake fd p))"
  by (simp add: containsAndTake_def Let_def)

lemma takes_outside:
  "\<forall>p \<in> set ps. \<not> magnitude (subtract p (food_pos fd)) < food_radius fd \<Longrightarrow> takes fd ps = fd"
proof (induction ps arbitrary: fd)
  case Nil
  then show ?case by simp
next
  case (Cons p ps)
  then have "snd (containsAndTake fd p) = fd"
    by (simp add: containsAndTake_failure containsAndTake_flag)
  with Cons show ?case by simp
qed

text \<open>
  Claim C8. \<open>containsAndTake\<close> returns true exactly when the amount is positive and the
  caller is closer to the centre than the radius, and then the amount has dropped by
  exactly 1; in every other case it returns false and the food source is unchanged. So
  the amount never becomes negative, \<open>originalAmount\<close> calls from within the radius on
  a fresh source leave it depleted, and calls from outside never change the amount.
\<close>

theorem containsAndTake_spec:
  "(fst (containsAndTake fd p) \<longleftrightarrow>
      amount fd > 0 \<and> magnitude (subtract p (food_pos fd)) < food_radius fd) \<and>
   (fst (containsAndTake fd p) \<longrightarrow> snd (containsAndTake fd p) = fd\<lparr>amount := amount fd - 1\<rparr>) \<and>
   (\<not> fst (containsAndTake fd p) \<longrightarrow> snd (containsAndTake fd p) = fd) \<and>
   (0 \<le> amount fd \<longrightarrow> 0 \<le> amount (snd (containsAndTake fd p))) \<and>
   (amount fd = originalAmount fd \<and> int (length ps) = originalAmount fd \<and>
    (\<forall>q \<in> set ps. magnitude (subtract q (food_pos fd)) < food_radius fd)
      \<longrightarrow> isDepleted (takes fd ps)) \<and>
   ((\<forall>q \<in> set qs. \<not> magnitude (subtract q (food_pos fd)) < food_radius fd)
      \<longrightarrow> amount (takes fd qs) = amount fd)"
proof -
  have "isDepleted (takes fd ps)"
    if "amount fd = originalAmount fd" "int (length ps) = originalAmount fd"
      "\<forall>q \<in> set ps. magnitude (subtract q (food_pos fd)) < food_radius fd"
    using takes_amount_inside[OF that(3)] that(1,2) by (simp add: isDepleted_def)
  moreover have "amount (takes fd qs) = amount fd"
    if "\<forall>q \<in> set qs. \<not> magnitude (subtract q (food_pos fd)) < food_radius fd"
    using takes_outside[OF that] by simp
  ultimately show ?thesis
    using containsAndTake_flag[of fd p] containsAndTake_success[of fd p]
      containsAndTake_failure[of fd p] containsAndTake_nonneg[of fd p]
    by blast
qed

theorem containsAndTake_spec_witness:
  "fst (containsAndTake \<lparr>food_pos = Vec 0 0, amount = 2, food_radius = 20, originalAmount = 2\<rparr> (Vec 3 0)) \<and>
   amount (snd (containsAndTake \<lparr>food_pos = Vec 0 0, amount = 2, food_radius = 20, originalAmount = 2\<rparr> (Vec 3 0))) = 1 \<and>
   \<not> fst (containsAndTake \<lparr>food_pos = Vec 0 0, amount = 2, food_radius = 20, originalAmount = 2\<rparr> (Vec 30 0)) \<and>
   isDepleted (takes \<lparr>food_pos = Vec 0 0, amount = 2, food_radius = 20, originalAmount = 2\<rparr> [Vec 3 0, Vec 0 4]) \<and>
   amount (takes \<lparr>food_pos = Vec 0 0, amount = 2, food_radius = 20, originalAmount = 2\<rparr> [Vec 30 0]) = 2"
proof -
  let ?fd = "\<lparr>food_pos = Vec 0 0, amount = 2, food_radius = 20, originalAmount = 2\<rparr>"
  have m: "magnitude (subtract (Vec 3 0) (food_pos ?fd)) < food_radius ?fd"
    "magnitude (subtract (Vec 0 4) (food_pos ?fd)) < food_radius ?fd"
    "\<not> magnitude (subtract (Vec 30 0) (food_pos ?fd)) < food_radius ?fd"
    by (simp_all add: subtract_def magnitude_axis)
  from containsAndTake_spec[of ?fd "Vec 3 0" "[Vec 3 0, Vec 0 4]" "[Vec 30 0]"]
    containsAndTake_spec[of ?fd "Vec 30 0" "[]" "[]"] m
  show ?thesis by (simp del: takes.simps)
qed

section \<open>The gradient\<close>

lemma gradient_estimate_total:
  assumes "wf_field f"
  shows "\<exists>e. gradient_estimate f pos type = Some e"
proof -
  have "\<exists>v. sample f p type = Some v" for p
    by (rule sample_total[OF assms])
  then obtain s where s: "\<And>p. sample f p type = Some (s p)" by metis
  show ?thesis
    by (simp add: gradient_estimate_def Let_def s)
qed

text \<open>
  Claim C10. For every position and channel, \<open>gradient\<close> on a well-formed field returns
  either the exact zero vector, which it does when the magnitude of the estimated gradient
  is at most 0.1, or a vector of magnitude 1. Nothing else is returned.
\<close>

theorem gradient_zero_or_unit:
  assumes "wf_field f"
  shows "\<exists>e g. gradient_estimate f pos type = Some e \<and> gradient f pos type = Some g \<and>
               (if magnitude e \<le> 0.1 then g = Vec 0 0 else magnitude g = 1)"
proof -
  from gradient_estimate_total[OF assms] obtain e where e: "gradient_estimate f pos type = Some e"
    by blast
  have "magnitude (normalize e) = 1" if "\<not> magnitude e \<le> 0.1"
    using that by (intro magnitude_normalize) simp
  with e show ?thesis
    by (auto simp: gradient_def)
qed

theorem gradient_zero_or_unit_witness:
  "wf_field \<lparr>cell = 6, gridW = 3, gridH = 1, home = [[0], [0], [5]],
             food = [[0], [0], [0]], pathSuccess = [[0], [0], [0]]\<rparr> \<and>
   gradient_estimate \<lparr>cell = 6, gridW = 3, gridH = 1, home = [[0], [0], [5]],
             food = [[0], [0], [0]], pathSuccess = [[0], [0], [0]]\<rparr> (Vec 9 3) ''home'' = Some (Vec 5 0) \<and>
   (\<exists>g. gradient \<lparr>cell = 6, gridW = 3, gridH = 1, home = [[0], [0], [5]],
             food = [[0], [0], [0]], pathSuccess = [[0], [0], [0]]\<rparr> (Vec 9 3) ''home'' = Some g \<and>
        magnitude g = 1) \<and>
   gradient \<lparr>cell = 6, gridW = 3, gridH = 1, home = [[0], [0], [5]],
             food = [[0], [0], [0]], pathSuccess = [[0], [0], [0]]\<rparr> (Vec 9 3) ''food'' = Some (Vec 0 0)"
proof -
  let ?f = "\<lparr>cell = 6, gridW = 3, gridH = 1, home = [[0], [0], [5]],
             food = [[0], [0], [0]], pathSuccess = [[0], [0], [0]]\<rparr>"
  have w: "wf_field ?f"
    by (simp add: wf_field_def grid_dims_def)
  have e: "gradient_estimate ?f (Vec 9 3) ''home'' = Some (Vec 5 0)"
    by (simp add: gradient_estimate_def sample_def index_def clamp_def grid_get_def in_grid_def)
  have z: "gradient_estimate ?f (Vec 9 3) ''food'' = Some (Vec 0 0)"
    by (simp add: gradient_estimate_def sample_def index_def clamp_def grid_get_def in_grid_def)
  from gradient_zero_or_unit[OF w, of "Vec 9 3" "''home''"] e
  have "\<exists>g. gradient ?f (Vec 9 3) ''home'' = Some g \<and> magnitude g = 1"
    by (auto simp: magnitude_axis)
  moreover from gradient_zero_or_unit[OF w, of "Vec 9 3" "''food''"] z
  have "gradient ?f (Vec 9 3) ''food'' = Some (Vec 0 0)"
    by (auto simp: magnitude_axis)
  ultimately show ?thesis using w e by blast
qed

section \<open>Delivering food to the nest\<close>

lemma reinforce_point_total:
  assumes "wf_field f"
  shows "\<exists>f'. reinforce_point strength pos f = Some f' \<and> same_shape f f' \<and>
              home f' = home f \<and> food f' = food f"
proof -
  obtain gx gy where ix: "index f pos = (gx, gy)" by (cases "index f pos")
  note b = index_bounds[OF assms ix]
  from grid_modify_total[of "pathSuccess f" "gridW f" "gridH f" gx gy "\<lambda>v. min (v + strength) 100"]
    b assms
  obtain ps where "grid_modify (pathSuccess f) gx gy (\<lambda>v. min (v + strength) 100) = Some ps"
    "grid_dims ps (gridW f) (gridH f)" by (auto simp: wf_field_def)
  with ix b assms show ?thesis
    by (auto simp: reinforce_point_def same_shape_def wf_field_def)
qed

lemma reinforcePath_total:
  assumes "wf_field f"
  shows "\<exists>f'. reinforcePath f pts strength = Some f' \<and> same_shape f f' \<and>
              home f' = home f \<and> food f' = food f"
proof -
  let ?P = "\<lambda>t. same_shape f t \<and> home t = home f \<and> food t = food f"
  have "?P f" using assms by (simp add: same_shape_refl)
  then show ?thesis
    unfolding reinforcePath_def
  proof (rule for_loop_invariant[where P = ?P])
    fix p t assume "?P t"
    then have "wf_field t" by (simp add: same_shape_def)
    from reinforce_point_total[OF this, of strength p] \<open>?P t\<close>
    show "\<exists>t'. reinforce_point strength p t = Some t' \<and> ?P t'"
      by (auto intro: same_shape_trans)
  qed
qed

lemma deliver_total:
  assumes "wf_field f"
  shows "\<exists>a' n' f'. deliver now now2 r a (n, f) = Some (a', n', f') \<and> wf_field f' \<and>
           maxCapacity n' = maxCapacity n \<and>
           (foodStored n \<le> maxCapacity n \<longrightarrow> foodStored n' \<le> maxCapacity n') \<and>
           (isFull n \<longrightarrow> isFull n')"
proof -
  from reinforcePath_total[OF assms, of "path a" "overallEfficiency a now * 6"]
  obtain f' where "reinforcePath f (path a) (overallEfficiency a now * 6) = Some f'" "wf_field f'"
    by (auto simp: same_shape_def)
  with assms show ?thesis
    by (auto simp: deliver_def Let_def)
qed

lemma deliveries_invariant:
  assumes "wf_field f" and "foodStored n \<le> maxCapacity n"
  shows "\<exists>n' f'. deliveries ds (n, f) = Some (n', f') \<and> wf_field f' \<and>
           maxCapacity n' = maxCapacity n \<and> foodStored n' \<le> maxCapacity n' \<and>
           (isFull n \<longrightarrow> isFull n')"
  using assms
proof (induction ds arbitrary: n f)
  case Nil
  then show ?case by simp
next
  case (Cons d ds)
  obtain now now2 r a where d: "d = (now, now2, r, a)" by (cases d)
  from deliver_total[OF Cons.prems(1), of now now2 r a n] Cons.prems(2)
  obtain a1 n1 f1 where s: "deliver now now2 r a (n, f) = Some (a1, n1, f1)" "wf_field f1"
    "maxCapacity n1 = maxCapacity n" "foodStored n1 \<le> maxCapacity n1" "isFull n \<longrightarrow> isFull n1"
    by blast
  from Cons.IH[OF s(2) s(4)] s(1,3,5) d show ?case by auto
qed

lemma deliver_filling:
  assumes "wf_field f"
    and "magnitude (subtract (position a) (Vec (nest_x n) (nest_y n))) < nest_radius n + 5"
    and "foodStored n < maxCapacity n"
    and "maxCapacity n \<le> foodStored n + foodGained a now"
  shows "\<exists>a' n' f'. deliver now now2 r a (n, f) = Some (a', n', f') \<and>
           foodStored n' = maxCapacity n \<and> isFull n'"
proof -
  from reinforcePath_total[OF assms(1), of "path a" "overallEfficiency a now * 6"]
  obtain f' where "reinforcePath f (path a) (overallEfficiency a now * 6) = Some f'"
    by auto
  with assms show ?thesis
    by (auto simp: deliver_def Let_def)
qed

text \<open>
  Claim C4. Along every sequence of food deliveries, starting from a nest that holds no
  more than its capacity, \<open>foodStored\<close> never exceeds \<open>maxCapacity\<close>, and \<open>isFull\<close>,
  once true, stays true (no delivery clears it). A delivery near the nest that would reach
  or exceed the capacity sets \<open>foodStored\<close> to exactly \<open>maxCapacity\<close> and marks the nest
  full.
\<close>

theorem nest_capacity_invariant:
  assumes "wf_field f" and "foodStored n \<le> maxCapacity n"
  shows "(\<exists>n' f'. deliveries ds (n, f) = Some (n', f') \<and>
            foodStored n' \<le> maxCapacity n' \<and> maxCapacity n' = maxCapacity n \<and>
            (isFull n \<longrightarrow> isFull n')) \<and>
         (magnitude (subtract (position a) (Vec (nest_x n) (nest_y n))) < nest_radius n + 5 \<and>
          foodStored n < maxCapacity n \<and> maxCapacity n \<le> foodStored n + foodGained a now \<longrightarrow>
            (\<exists>a' n' f'. deliver now now2 r a (n, f) = Some (a', n', f') \<and>
               foodStored n' = maxCapacity n \<and> isFull n'))"
  using deliveries_invariant[OF assms, of ds] deliver_filling[OF assms(1), of a n now now2 r]
  by blast

theorem nest_capacity_invariant_witness:
  "wf_field (new_PheromoneField 12 12 6) \<and>
   (\<exists>n' f'. deliveries (replicate 3 (1000, 1001, 0, \<lparr>position = Vec 3 0, velocity = Vec 1 0, hasFood = True, path = [],
         tripStartTime = 0, momentum = Vec 0 0, lastFoodTime = 0, maxSpeed = 3, maxTurnRate = 0.3,
         energy = 100\<rparr>))
       (\<lparr>nest_x = 0, nest_y = 0, nest_radius = 40, foodStored = 0, maxCapacity = 2,
         efficiency = 1, isFull = False\<rparr>, new_PheromoneField 12 12 6) = Some (n', f') \<and>
      foodStored n' \<le> 2) \<and>
   (\<exists>a' n' f'. deliver 1000 1001 0 \<lparr>position = Vec 3 0, velocity = Vec 1 0, hasFood = True, path = [],
         tripStartTime = 0, momentum = Vec 0 0, lastFoodTime = 0, maxSpeed = 3, maxTurnRate = 0.3,
         energy = 100\<rparr>
       (\<lparr>nest_x = 0, nest_y = 0, nest_radius = 40, foodStored = 1, maxCapacity = 2,
         efficiency = 1, isFull = False\<rparr>, new_PheromoneField 12 12 6) = Some (a', n', f') \<and>
      foodStored n' = 2 \<and> isFull n')"
proof -
  let ?a = "\<lparr>position = Vec 3 0, velocity = Vec 1 0, hasFood = True, path = [],
         tripStartTime = 0, momentum = Vec 0 0, lastFoodTime = 0, maxSpeed = 3, maxTurnRate = 0.3,
         energy = 100\<rparr>"
  let ?n0 = "\<lparr>nest_x = 0, nest_y = 0, nest_radius = 40, foodStored = 0, maxCapacity = 2,
         efficiency = 1, isFull = False\<rparr>"
  let ?n1 = "\<lparr>nest_x = 0, nest_y = 0, nest_radius = 40, foodStored = 1, maxCapacity = 2,
         efficiency = 1, isFull = False\<rparr>"
  let ?f = "new_PheromoneField 12 12 6"
  have w: "wf_field ?f"
    by (rule new_PheromoneField_wf) simp
  have g: "foodGained ?a 1000 = 1"
    by (simp add: foodGained_def overallEfficiency_def)
  have near: "magnitude (subtract (position ?a) (Vec 0 0)) < 45"
    by (simp add: subtract_def magnitude_axis)
  have "\<exists>n' f'. deliveries (replicate 3 (1000, 1001, 0, ?a)) (?n0, ?f) = Some (n', f') \<and>
          foodStored n' \<le> 2"
    using nest_capacity_invariant[OF w, of ?n0 "replicate 3 (1000, 1001, 0, ?a)" ?a 1000 1001 0]
    by fastforce
  moreover have "\<exists>a' n' f'. deliver 1000 1001 0 ?a (?n1, ?f) = Some (a', n', f') \<and>
          foodStored n' = 2 \<and> isFull n'"
    using nest_capacity_invariant[OF w, of ?n1 "[]" ?a 1000 1001 0] g near
    by simp
  ultimately show ?thesis using w by blast
qed

text \<open>
  Claim C5. When an ant carrying food reaches a nest that is already full
  (\<open>foodStored \<ge> maxCapacity\<close>), the delivery is rejected: \<open>foodStored\<close> is unchanged
  (of the nest only \<open>isFull\<close> is set, and the field is untouched), and the ant goes back
  to exploring, \<open>hasFood\<close> false, with an empty path.
\<close>

theorem full_nest_rejects_delivery:
  assumes "magnitude (subtract (position a) (Vec (nest_x n) (nest_y n))) < nest_radius n + 5"
    and "foodStored n \<ge> maxCapacity n"
  shows "\<exists>a' n'. deliver now now2 r a (n, f) = Some (a', n', f) \<and>
           foodStored n' = foodStored n \<and> n' = n\<lparr>isFull := True\<rparr> \<and>
           \<not> hasFood a' \<and> path a' = []"
  using assms by (simp add: deliver_def Let_def)

theorem full_nest_rejects_delivery_witness:
  "\<exists>a' n'. deliver 1000 1001 0 \<lparr>position = Vec 3 0, velocity = Vec 1 0, hasFood = True,
         path = [Vec 50 0, Vec 30 0], tripStartTime = 0, momentum = Vec 0 0, lastFoodTime = 0,
         maxSpeed = 3, maxTurnRate = 0.3, energy = 100\<rparr>
       (\<lparr>nest_x = 0, nest_y = 0, nest_radius = 40, foodStored = 2, maxCapacity = 2,
         efficiency = 1, isFull = False\<rparr>, new_PheromoneField 12 12 6) =
       Some (a', n', new_PheromoneField 12 12 6) \<and>
     foodStored n' = 2 \<and> isFull n' \<and> \<not> hasFood a' \<and> path a' = []"
proof -
  let ?a = "\<lparr>position = Vec 3 0, velocity = Vec 1 0, hasFood = True,
         path = [Vec 50 0, Vec 30 0], tripStartTime = 0, momentum = Vec 0 0, lastFoodTime = 0,
         maxSpeed = 3, maxTurnRate = 0.3, energy = 100\<rparr>"
  let ?n = "\<lparr>nest_x = 0, nest_y = 0, nest_radius = 40, foodStored = 2, maxCapacity = 2,
         efficiency = 1, isFull = False\<rparr>"
  have near: "magnitude (subtract (position ?a) (Vec (nest_x ?n) (nest_y ?n))) < nest_radius ?n + 5"
    by (simp add: subtract_def magnitude_axis)
  have full: "foodStored ?n \<ge> maxCapacity ?n"
    by simp
  from full_nest_rejects_delivery[OF near full, of 1000 1001 0 "new_PheromoneField 12 12 6"]
  show ?thesis by auto
qed

section \<open>The speed limit\<close>

lemma clamp_speed:
  assumes "0 \<le> m"
  shows "magnitude (if magnitude v > m then multiply (normalize v) m else v) \<le> m"
proof (cases "magnitude v > m")
  case True
  with assms have "magnitude v > 0" by simp
  then have "magnitude (normalize v) = 1" by (rule magnitude_normalize)
  with True assms show ?thesis by (simp add: magnitude_multiply)
next
  case False
  then show ?thesis by simp
qed

lemma update_maxSpeed_pos: "0 < maxSpeed (update_maxSpeed a)"
  by (simp add: update_maxSpeed_def Let_def max_def)

lemma update_velocity_maxSpeed: "maxSpeed (update_velocity a d) = maxSpeed a"
  by (simp add: update_velocity_def Let_def)

lemma update_velocity_form:
  "\<exists>v1. velocity (update_velocity b d) =
     (if magnitude v1 > maxSpeed b * 1.5 then multiply (normalize v1) (maxSpeed b * 1.5) else v1)"
proof -
  have sel: "velocity (b\<lparr>velocity := X\<rparr>) = X" for X
    by simp
  show ?thesis
    unfolding update_velocity_def Let_def sel
    by (rule exI) (rule refl)
qed

text \<open>
  Claim C6, as amended. After the speed update of a tick the magnitude of the velocity is
  at most 1.5 times \<open>maxSpeed\<close>, where \<open>maxSpeed\<close> is \<open>3.0 * max(0.3, energy / 100)\<close>:
  the code limits the speed to \<open>maxAllowedSpeed = maxSpeed * 1.5\<close>, not to \<open>maxSpeed\<close>.
\<close>

theorem speed_clamped:
  "magnitude (velocity (update_velocity (update_maxSpeed a) direction))
     \<le> 1.5 * maxSpeed (update_maxSpeed a) \<and>
   maxSpeed (update_maxSpeed a) = 3 * max 0.3 (energy a / 100)"
proof -
  let ?b = "update_maxSpeed a"
  have m: "0 \<le> maxSpeed ?b * 1.5"
    using update_maxSpeed_pos[of a] by simp
  from update_velocity_form[of ?b direction] obtain v1 where
    "velocity (update_velocity ?b direction) =
       (if magnitude v1 > maxSpeed ?b * 1.5 then multiply (normalize v1) (maxSpeed ?b * 1.5) else v1)"
    by blast
  with clamp_speed[OF m, of v1]
  have "magnitude (velocity (update_velocity ?b direction)) \<le> 1.5 * maxSpeed ?b"
    by (simp add: mult.commute)
  moreover have "maxSpeed ?b = 3 * max 0.3 (energy a / 100)"
    by (simp add: update_maxSpeed_def Let_def)
  ultimately show ?thesis by blast
qed

theorem speed_clamped_witness:
  "magnitude (velocity (update_velocity (update_maxSpeed \<lparr>position = Vec 100 100, velocity = Vec 4 0,
       hasFood = False, path = [], tripStartTime = 0, momentum = Vec 0 0, lastFoodTime = 0,
       maxSpeed = 3, maxTurnRate = 0.3, energy = 100\<rparr>) (Vec 1 0))) \<le> 4.5"
  using speed_clamped[of "\<lparr>position = Vec 100 100, velocity = Vec 4 0,
       hasFood = False, path = [], tripStartTime = 0, momentum = Vec 0 0, lastFoodTime = 0,
       maxSpeed = 3, maxTurnRate = 0.3, energy = 100\<rparr>" "Vec 1 0"]
  by simp

lemma atan2_axis: "0 < a \<Longrightarrow> atan2 0 a = 0"
  by (simp add: atan2_def)

text \<open>
  The claim as stated fails. An ant moving at speed 4 (the speed the code gives an ant it
  throws out of an obstacle) in the direction it is steering to, at full energy, leaves
  the speed update with speed 3.9, above its \<open>maxSpeed\<close> of 3.
\<close>

theorem speed_above_maxSpeed:
  "maxSpeed (update_maxSpeed \<lparr>position = Vec 100 100, velocity = Vec 4 0, hasFood = False, path = [],
       tripStartTime = 0, momentum = Vec 0 0, lastFoodTime = 0, maxSpeed = 3, maxTurnRate = 0.3,
       energy = 100\<rparr>) = 3 \<and>
   velocity (update_velocity (update_maxSpeed \<lparr>position = Vec 100 100, velocity = Vec 4 0, hasFood = False, path = [],
       tripStartTime = 0, momentum = Vec 0 0, lastFoodTime = 0, maxSpeed = 3, maxTurnRate = 0.3,
       energy = 100\<rparr>) (Vec 1 0)) = Vec 3.9 0 \<and>
   magnitude (velocity (update_velocity (update_maxSpeed \<lparr>position = Vec 100 100, velocity = Vec 4 0, hasFood = False, path = [],
       tripStartTime = 0, momentum = Vec 0 0, lastFoodTime = 0, maxSpeed = 3, maxTurnRate = 0.3,
       energy = 100\<rparr>) (Vec 1 0))) > 3"
  by (simp add: update_velocity_def update_maxSpeed_def Let_def magnitude_axis angle_def atan2_axis
      multiply_def)

section \<open>Obstacle repulsion\<close>

lemma closestOnSeg_None_iff:
  "closestOnSeg a b p = None \<longleftrightarrow> seg_den a b = 0 \<and> seg_num a b p = 0"
  by (simp add: closestOnSeg_def Let_def)

lemma fl_abs_ge:
  assumes "pow2 k \<le> \<bar>x\<bar>" and "- 1074 \<le> k"
  shows "pow2 k \<le> \<bar>fl x\<bar>"
proof (cases "0 \<le> x")
  case True
  with assms fl_ge_pow2[of k x] fl_nonneg[of x] show ?thesis by simp
next
  case False
  with assms fl_ge_pow2[of k "- x"] fl_nonneg[of "- x"] show ?thesis by (simp add: fl_neg)
qed

lemma fl_square_ge:
  assumes "1 / 2 ^ 500 \<le> \<bar>d\<bar>"
  shows "1 / 2 ^ 1000 \<le> fl (fl d * fl d)"
proof -
  from assms have "pow2 (- 500) \<le> \<bar>d\<bar>" by simp
  then have a: "pow2 (- 500) \<le> \<bar>fl d\<bar>" by (rule fl_abs_ge) simp
  have "pow2 (- 1000) = pow2 (- 500) * pow2 (- 500)"
    using pow2_add[of "- 500" "- 500"] by simp
  also have "\<dots> \<le> \<bar>fl d\<bar> * \<bar>fl d\<bar>"
    using a by (intro mult_mono) simp_all
  also have "\<dots> = fl d * fl d" by (simp add: abs_mult_self_eq)
  finally have "pow2 (- 1000) \<le> fl (fl d * fl d)" by (rule fl_ge_pow2) simp
  then show ?thesis by simp
qed

lemma seg_den_nonzero:
  assumes "1 / 2 ^ 500 \<le> \<bar>vec_x b - vec_x a\<bar> \<or> 1 / 2 ^ 500 \<le> \<bar>vec_y b - vec_y a\<bar>"
  shows "seg_den a b \<noteq> 0"
proof -
  let ?dx = "vec_x b - vec_x a" and ?dy = "vec_y b - vec_y a"
  have nx: "0 \<le> fl (fl ?dx * fl ?dx)" and ny: "0 \<le> fl (fl ?dy * fl ?dy)"
    by (simp_all add: fl_nonneg)
  from assms fl_square_ge[of ?dx] fl_square_ge[of ?dy] nx ny
  have "pow2 (- 1000) \<le> fl (fl ?dx * fl ?dx) + fl (fl ?dy * fl ?dy)"
    by auto
  then have "pow2 (- 1000) \<le> fl (fl (fl ?dx * fl ?dx) + fl (fl ?dy * fl ?dy))"
    by (rule fl_ge_pow2) simp
  moreover have "0 < pow2 (- 1000)" by (rule pow2_pos)
  ultimately show ?thesis by (simp add: seg_den_def seg_dir_def)
qed

lemma closestOnSeg_near:
  assumes a: "in_range a" and b: "in_range b" and c: "closestOnSeg a b p = Some cp"
  shows "\<bar>vec_x cp\<bar> \<le> 2 ^ 502 \<and> \<bar>vec_y cp\<bar> \<le> 2 ^ 502"
proof -
  define tt where "tt = (if seg_den a b = 0 then (if 0 < seg_num a b p then 1 else 0)
                         else max 0 (min 1 (fl (seg_num a b p / seg_den a b))))"
  have tt: "0 \<le> tt" "tt \<le> 1" by (auto simp: tt_def)
  have coord: "\<bar>fl (u + fl (fl (w - u) * tt))\<bar> \<le> 2 ^ 502"
    if u: "\<bar>u\<bar> \<le> 2 ^ 500" and w: "\<bar>w\<bar> \<le> 2 ^ 500" for u w :: real
  proof -
    from u w have "\<bar>w - u\<bar> \<le> pow2 501" by simp
    then have d: "\<bar>fl (w - u)\<bar> \<le> pow2 501" by (rule fl_abs_le) simp
    have "\<bar>fl (w - u) * tt\<bar> = \<bar>fl (w - u)\<bar> * tt" using tt by (simp add: abs_mult)
    also have "\<dots> \<le> \<bar>fl (w - u)\<bar> * 1" using tt by (intro mult_left_mono) simp_all
    finally have "\<bar>fl (w - u) * tt\<bar> \<le> pow2 501" using d by simp
    then have "\<bar>fl (fl (w - u) * tt)\<bar> \<le> pow2 501" by (rule fl_abs_le) simp
    with u have "\<bar>u + fl (fl (w - u) * tt)\<bar> \<le> pow2 502" by simp
    then have "\<bar>fl (u + fl (fl (w - u) * tt))\<bar> \<le> pow2 502" by (rule fl_abs_le) simp
    then show ?thesis by simp
  qed
  from c have "cp = Vec (fl (vec_x a + fl (fl (vec_x b - vec_x a) * tt)))
                        (fl (vec_y a + fl (fl (vec_y b - vec_y a) * tt)))"
    by (auto simp: closestOnSeg_def Let_def seg_dir_def tt_def split: if_splits)
  with coord a b show ?thesis by (simp add: in_range_def)
qed

lemma repulse_edge_ok: "best_ok pos best \<Longrightarrow> best_ok pos (repulse_edge pos pts i best)"
  by (auto simp: best_ok_def repulse_edge_def Let_def split: option.splits)

lemma repulse_edge_near:
  assumes "best_near best" and "in_range (pts ! i)" and "in_range (pts ! ((i + 1) mod length pts))"
  shows "best_near (repulse_edge pos pts i best)"
proof (cases "closestOnSeg (pts ! i) (pts ! ((i + 1) mod length pts)) pos")
  case None
  with assms(1) show ?thesis by (simp add: repulse_edge_def)
next
  case (Some cp)
  from closestOnSeg_near[OF assms(2,3) Some] assms(1) Some show ?thesis
    by (auto simp: best_near_def repulse_edge_def Let_def split: option.splits)
qed

lemma repulse_edge_keeps: "best \<noteq> None \<Longrightarrow> repulse_edge pos pts i best \<noteq> None"
  by (auto simp: repulse_edge_def Let_def split: option.splits)

lemma repulse_edge_finds:
  "seg_den (pts ! i) (pts ! ((i + 1) mod length pts)) \<noteq> 0 \<Longrightarrow>
   repulse_edge pos pts i best \<noteq> None"
  using closestOnSeg_None_iff[of "pts ! i" "pts ! ((i + 1) mod length pts)" pos]
  by (auto simp: repulse_edge_def Let_def split: option.splits)

lemma fold_repulse_edge_ok:
  "best_ok pos best \<Longrightarrow> best_ok pos (fold (repulse_edge pos pts) js best)"
  by (induction js arbitrary: best) (simp_all add: repulse_edge_ok)

lemma fold_repulse_edge_near:
  assumes "best_near best" and "\<forall>v \<in> set pts. in_range v" and "\<forall>j \<in> set js. j < length pts"
  shows "best_near (fold (repulse_edge pos pts) js best)"
  using assms
proof (induction js arbitrary: best)
  case Nil
  then show ?case by simp
next
  case (Cons j js)
  from Cons.prems(3) have j: "j < length pts" by simp
  then have "0 < length pts" by (cases pts) simp_all
  then have "(j + 1) mod length pts < length pts" by (rule mod_less_divisor)
  with j Cons.prems(2) have "in_range (pts ! j)" "in_range (pts ! ((j + 1) mod length pts))"
    by (simp_all only: nth_mem)
  from repulse_edge_near[OF Cons.prems(1) this] Cons.IH Cons.prems(2,3) show ?case by simp
qed

lemma fold_repulse_edge_finds:
  "best \<noteq> None \<or> (\<exists>i \<in> set js. seg_den (pts ! i) (pts ! ((i + 1) mod length pts)) \<noteq> 0) \<Longrightarrow>
   fold (repulse_edge pos pts) js best \<noteq> None"
proof (induction js arbitrary: best)
  case Nil
  then show ?case by simp
next
  case (Cons j js)
  show ?case
  proof (cases "repulse_edge pos pts j best = None")
    case True
    with Cons.prems repulse_edge_keeps[of best pos pts j] repulse_edge_finds[of pts j pos best]
    have "\<exists>i \<in> set js. seg_den (pts ! i) (pts ! ((i + 1) mod length pts)) \<noteq> 0" by auto
    with Cons.IH show ?thesis by simp
  next
    case False
    with Cons.IH show ?thesis by simp
  qed
qed

lemma abs_diff_bound: "\<bar>a\<bar> \<le> A \<Longrightarrow> \<bar>b\<bar> \<le> B \<Longrightarrow> \<bar>a - b\<bar> \<le> A + B" for a b :: real
  by linarith

lemma magnitude_le_sum: "magnitude (Vec x y) \<le> \<bar>x\<bar> + \<bar>y\<bar>"
  using sqrt_sum_squares_le_sum_abs[of x y] by (simp add: magnitude_def power2_eq_square)

text \<open>
  Claim C9, as amended. For every obstacle whose polygon has an edge whose squared length
  \<open>ab.x * ab.x + ab.y * ab.y\<close>, as the code computes it, is not 0, and every query position
  (the centre and the vertices included), all coordinates being at most \<open>2 ^ 500\<close> in
  magnitude, \<open>repulse\<close> returns a direction of magnitude 1 and a finite distance that is not
  negative (it is at most \<open>2 ^ 504\<close>). An edge whose end points differ by \<open>2 ^ -500\<close> or more
  in one coordinate has such a squared length (lemma \<open>seg_den_nonzero\<close>).
\<close>

theorem repulse_unit:
  assumes edge: "\<exists>i < length (blob ob).
      seg_den (blob ob ! i) (blob ob ! ((i + 1) mod length (blob ob))) \<noteq> 0"
    and range: "\<forall>v \<in> set (blob ob). in_range v" "in_range pos" "in_range (obstacle_pos ob)"
  shows "\<exists>v d. repulse ob pos r = (v, Finite d) \<and> magnitude v = 1 \<and> 0 \<le> d \<and> d \<le> 2 ^ 504"
proof -
  let ?best = "fold (repulse_edge pos (blob ob)) [0 ..< length (blob ob)] None"
  from edge have ne: "blob ob \<noteq> []" by auto
  from edge have "?best \<noteq> None"
    by (intro fold_repulse_edge_finds) auto
  then obtain minDist closest where b: "?best = Some (minDist, closest)" by auto
  have "best_ok pos ?best"
    by (rule fold_repulse_edge_ok) (simp add: best_ok_def)
  with b have d: "minDist = magnitude (subtract pos closest)" by (simp add: best_ok_def)
  have "best_near ?best"
    using range(1) by (intro fold_repulse_edge_near) (simp_all add: best_near_def)
  with b have cl: "\<bar>vec_x closest\<bar> \<le> 2 ^ 502" "\<bar>vec_y closest\<bar> \<le> 2 ^ 502"
    by (simp_all add: best_near_def)
  have "minDist \<le> \<bar>vec_x pos - vec_x closest\<bar> + \<bar>vec_y pos - vec_y closest\<bar>"
    unfolding d subtract_def by (rule magnitude_le_sum)
  also have "\<dots> \<le> (2 ^ 500 + 2 ^ 502) + (2 ^ 500 + 2 ^ 502)"
    using cl range(2) by (intro add_mono abs_diff_bound) (simp_all add: in_range_def)
  also have "\<dots> \<le> (2 ^ 504 :: real)" by simp
  finally have far_le: "minDist \<le> 2 ^ 504" .
  let ?away = "subtract pos closest" and ?centerAway = "subtract pos (obstacle_pos ob)"
  consider (close_off) "magnitude ?away < 0.1" "magnitude ?centerAway > 0.1"
    | (close_centre) "magnitude ?away < 0.1" "\<not> magnitude ?centerAway > 0.1"
    | (far) "\<not> magnitude ?away < 0.1" by blast
  then show ?thesis
  proof cases
    case close_off
    then have "magnitude (normalize ?centerAway) = 1" by (intro magnitude_normalize) simp
    with close_off ne b show ?thesis by (simp add: repulse_def Let_def)
  next
    case close_centre
    with ne b show ?thesis by (simp add: repulse_def Let_def magnitude_random_vec)
  next
    case far
    then have "magnitude (normalize ?away) = 1" by (intro magnitude_normalize) simp
    with far ne b d far_le show ?thesis by (simp add: repulse_def Let_def magnitude_nonneg)
  qed
qed

theorem repulse_unit_witness:
  "seg_den (blob \<lparr>obstacle_pos = Vec 1 1, blob = [Vec 0 0, Vec 4 0, Vec 0 3]\<rparr> ! 0)
           (blob \<lparr>obstacle_pos = Vec 1 1, blob = [Vec 0 0, Vec 4 0, Vec 0 3]\<rparr> ! 1) \<noteq> 0 \<and>
   in_range (Vec 4 0) \<and>
   (\<exists>v d. repulse \<lparr>obstacle_pos = Vec 1 1, blob = [Vec 0 0, Vec 4 0, Vec 0 3]\<rparr> (Vec 0 0) 0
            = (v, Finite d) \<and> magnitude v = 1 \<and> 0 \<le> d \<and> d \<le> 2 ^ 504) \<and>
   (\<exists>v d. repulse \<lparr>obstacle_pos = Vec 1 1, blob = [Vec 0 0, Vec 4 0, Vec 0 3]\<rparr> (Vec 1 1) 0
            = (v, Finite d) \<and> magnitude v = 1 \<and> 0 \<le> d \<and> d \<le> 2 ^ 504)"
proof -
  let ?ob = "\<lparr>obstacle_pos = Vec 1 1, blob = [Vec 0 0, Vec 4 0, Vec 0 3]\<rparr>"
  have s: "seg_den (blob ?ob ! 0) (blob ?ob ! 1) \<noteq> 0"
    by (rule seg_den_nonzero) simp
  then have e: "\<exists>i < length (blob ?ob).
      seg_den (blob ?ob ! i) (blob ?ob ! ((i + 1) mod length (blob ?ob))) \<noteq> 0"
    by (intro exI[of _ 0]) simp
  have r: "\<forall>v \<in> set (blob ?ob). in_range v" "in_range (Vec 0 0)" "in_range (Vec 1 1)"
    "in_range (obstacle_pos ?ob)" "in_range (Vec 4 0)"
    by (simp_all add: in_range_def)
  from repulse_unit[OF e r(1,2,4), of 0] repulse_unit[OF e r(1,3,4), of 0] s r(5)
  show ?thesis by simp
qed

lemma repulse_tiny:
  assumes "fl e = e" and "fl (e * e) = 0"
  shows "repulse \<lparr>obstacle_pos = Vec 0 0, blob = [Vec 0 0, Vec e 0, Vec 0 e]\<rparr> (Vec 0 0) 0
           = (Vec 0 0, Infinity)"
proof -
  have t1: "closestOnSeg (Vec 0 0) (Vec e 0) (Vec 0 0) = None"
    by (simp add: closestOnSeg_def seg_den_def seg_num_def seg_dir_def assms)
  have t2: "closestOnSeg (Vec e 0) (Vec 0 e) (Vec 0 0) = None"
    by (simp add: closestOnSeg_def seg_den_def seg_num_def seg_dir_def assms fl_neg)
  have t3: "closestOnSeg (Vec 0 e) (Vec 0 0) (Vec 0 0) = None"
    by (simp add: closestOnSeg_def seg_den_def seg_num_def seg_dir_def assms fl_neg)
  show ?thesis
    by (simp add: repulse_def repulse_edge_def upt_rec t1 t2 t3)
qed

text \<open>
  The claim as stated, for every polygon of at least three vertices, fails. When all
  vertices coincide, every edge has length 0, \<open>closestOnSeg\<close> yields \<open>NaN\<close> on each of them,
  no comparison \<open>d < minDist\<close> succeeds, and \<open>repulse\<close> returns the zero vector with the
  distance \<open>Infinity\<close>. Distinct vertices do not prevent it: for the triangle with the
  vertices \<open>(0, 0)\<close>, \<open>(2 ^ -600, 0)\<close> and \<open>(0, 2 ^ -600)\<close> and the query position \<open>(0, 0)\<close>
  the squares of the differences underflow to 0, and the result is the same.
\<close>

theorem repulse_degenerate_polygon:
  "3 \<le> length (blob \<lparr>obstacle_pos = Vec 0 0, blob = [Vec 0 0, Vec 0 0, Vec 0 0]\<rparr>) \<and>
   repulse \<lparr>obstacle_pos = Vec 0 0, blob = [Vec 0 0, Vec 0 0, Vec 0 0]\<rparr> (Vec 1 0) 0
     = (Vec 0 0, Infinity) \<and>
   magnitude (fst (repulse \<lparr>obstacle_pos = Vec 0 0, blob = [Vec 0 0, Vec 0 0, Vec 0 0]\<rparr> (Vec 1 0) 0))
     = 0 \<and>
   repulse \<lparr>obstacle_pos = Vec 0 0,
            blob = [Vec 0 0, Vec (1 / 2 ^ 600) 0, Vec 0 (1 / 2 ^ 600)]\<rparr> (Vec 0 0) 0
     = (Vec 0 0, Infinity)"
proof -
  let ?ob = "\<lparr>obstacle_pos = Vec 0 0, blob = [Vec 0 0, Vec 0 0, Vec 0 0]\<rparr>"
  have tiny: "fl (1 / 2 ^ 600) = 1 / 2 ^ 600"
    using fl_pow2[of "- 600"] by simp
  have under: "fl (1 / 2 ^ 600 * (1 / 2 ^ 600)) = 0"
    by (rule fl_underflow) simp
  have z: "closestOnSeg (Vec 0 0) (Vec 0 0) (Vec 1 0) = None"
    by (simp add: closestOnSeg_def seg_den_def seg_num_def seg_dir_def)
  have n: "3 \<le> length (blob ?ob)" by simp
  have r: "repulse ?ob (Vec 1 0) 0 = (Vec 0 0, Infinity)"
    by (simp add: repulse_def repulse_edge_def upt_rec z)
  then have m: "magnitude (fst (repulse ?ob (Vec 1 0) 0)) = 0"
    by (simp add: magnitude_def)
  from n r m repulse_tiny[OF tiny under] show ?thesis by (intro conjI)
qed

section \<open>Evaporation\<close>

lemma for_loop_map: "for_loop body (map h xs) s = for_loop (\<lambda>x. body (h x)) xs s"
  by (induction xs arbitrary: s) (auto split: option.splits)

lemma for_loop_product:
  "for_loop (\<lambda>x. for_loop (body x) ys) xs s = for_loop (\<lambda>(x, y). body x y) (List.product xs ys) s"
proof (induction xs arbitrary: s)
  case Nil
  then show ?case by simp
next
  case (Cons x xs)
  show ?case
    by (cases "for_loop (body x) ys s") (simp_all add: for_loop_append for_loop_map Cons.IH)
qed

lemma mapped_on_empty: "mapped_on {} k g g"
  by (simp add: mapped_on_def)

lemma mapped_on_in_grid: "mapped_on S k g g' \<Longrightarrow> in_grid g' i j = in_grid g i j"
  by (auto simp: mapped_on_def in_grid_def)

lemma mapped_on_step:
  assumes m: "mapped_on S k g g1" and u: "grid_modify g1 x y k = Some g2" and n: "(x, y) \<notin> S"
  shows "mapped_on (insert (x, y) S) k g g2"
proof -
  from u have ig1: "in_grid g1 x y" by (simp add: grid_modify_def split: if_splits)
  have len: "length g2 = length g1" "\<forall>i < length g1. length (g2 ! i) = length (g1 ! i)"
    using u by (auto simp: nth_list_update in_grid_def dest!: grid_modify_SomeD)
  have cells: "g2 ! nat i ! nat j = (if (i, j) \<in> insert (x, y) S then k (g ! nat i ! nat j)
                                    else g ! nat i ! nat j)" if ig: "in_grid g i j" for i j
  proof -
    from ig m have "in_grid g1 i j" by (simp add: mapped_on_in_grid)
    from grid_modify_at[OF u this]
    have "g2 ! nat i ! nat j = (if i = x \<and> j = y then k (g1 ! nat x ! nat y) else g1 ! nat i ! nat j)" .
    moreover from m ig have "g1 ! nat i ! nat j = (if (i, j) \<in> S then k (g ! nat i ! nat j)
                                                   else g ! nat i ! nat j)"
      by (simp add: mapped_on_def)
    ultimately show ?thesis using n by auto
  qed
  from m len cells show ?thesis
    by (simp add: mapped_on_def)
qed

lemma mapped_on_all:
  assumes "mapped_on S k g g'" and "\<And>i j. in_grid g i j \<Longrightarrow> (i, j) \<in> S"
  shows "g' = map (map k) g"
proof (rule nth_equalityI)
  show "length g' = length (map (map k) g)" using assms(1) by (simp add: mapped_on_def)
next
  fix i assume i: "i < length g'"
  with assms(1) have ig: "i < length g" and li: "length (g' ! i) = length (g ! i)"
    by (simp_all add: mapped_on_def)
  have "g' ! i = map k (g ! i)"
  proof (rule nth_equalityI)
    show "length (g' ! i) = length (map k (g ! i))" using li by simp
  next
    fix j assume "j < length (g' ! i)"
    with li have j: "j < length (g ! i)" by simp
    with ig have g: "in_grid g (int i) (int j)" by (simp add: in_grid_def)
    from assms(1) have "\<forall>i j. in_grid g i j \<longrightarrow>
        g' ! nat i ! nat j = (if (i, j) \<in> S then k (g ! nat i ! nat j) else g ! nat i ! nat j)"
      by (simp add: mapped_on_def)
    with g assms(2)[OF g] have "g' ! nat (int i) ! nat (int j) = k (g ! nat (int i) ! nat (int j))"
      by presburger
    with j show "g' ! i ! j = map k (g ! i) ! j" by simp
  qed
  with ig show "g' ! i = map (map k) g ! i" by simp
qed

lemma grid_modify_twice:
  assumes "grid_modify g x y k1 = Some g1"
  shows "grid_modify g1 x y k2 = grid_modify g x y (\<lambda>v. k2 (k1 v))"
proof -
  from assms have ig: "in_grid g x y"
    and g1: "g1 = g[nat x := (g ! nat x)[nat y := k1 (g ! nat x ! nat y)]]"
    by (auto dest: grid_modify_SomeD)
  from ig have "in_grid g1 x y" using grid_modify_in_grid[OF assms] by simp
  moreover from ig have "nat x < length g" "nat y < length (g ! nat x)"
    by (auto simp: in_grid_def)
  ultimately show ?thesis using ig
    by (simp add: grid_modify_def g1)
qed

lemma evaporate_cell_eq:
  "evaporate_cell rate x y f =
     do {
       h \<leftarrow> grid_modify (home f) x y (evaporated (factor rate));
       fo \<leftarrow> grid_modify (food f) x y (evaporated (factor rate));
       p \<leftarrow> grid_modify (pathSuccess f) x y (evaporated (success_factor rate));
       Some (f\<lparr>home := h, food := fo, pathSuccess := p\<rparr>)
     }"
proof (cases "grid_modify (home f) x y (\<lambda>v. fl (v * factor rate))")
  case None
  then have "grid_modify (home f) x y (evaporated (factor rate)) = None"
    by (simp add: grid_modify_def split: if_splits)
  with None show ?thesis by (simp add: evaporate_cell_def)
next
  case h: (Some h1)
  have H: "grid_modify h1 x y (\<lambda>v. if v < fl 0.01 then 0 else v) =
           grid_modify (home f) x y (evaporated (factor rate))"
    unfolding grid_modify_twice[OF h] evaporated_def ..
  show ?thesis
  proof (cases "grid_modify (food f) x y (\<lambda>v. fl (v * factor rate))")
    case None
    then have "grid_modify (food f) x y (evaporated (factor rate)) = None"
      by (simp add: grid_modify_def split: if_splits)
    with None h show ?thesis
      by (cases "grid_modify (home f) x y (evaporated (factor rate))") (simp_all add: evaporate_cell_def)
  next
    case fo: (Some f1)
    have F: "grid_modify f1 x y (\<lambda>v. if v < fl 0.01 then 0 else v) =
             grid_modify (food f) x y (evaporated (factor rate))"
      unfolding grid_modify_twice[OF fo] evaporated_def ..
    show ?thesis
    proof (cases "grid_modify (pathSuccess f) x y (\<lambda>v. fl (v * success_factor rate))")
      case None
      then have "grid_modify (pathSuccess f) x y (evaporated (success_factor rate)) = None"
        by (simp add: grid_modify_def split: if_splits)
      with None h fo show ?thesis
        by (cases "grid_modify (home f) x y (evaporated (factor rate))";
            cases "grid_modify (food f) x y (evaporated (factor rate))")
          (simp_all add: evaporate_cell_def)
    next
      case p: (Some p1)
      have P: "grid_modify p1 x y (\<lambda>v. if v < fl 0.01 then 0 else v) =
               grid_modify (pathSuccess f) x y (evaporated (success_factor rate))"
        unfolding grid_modify_twice[OF p] evaporated_def ..
      show ?thesis
        unfolding evaporate_cell_def h fo p Option.bind.simps H F P ..
    qed
  qed
qed

lemma in_grid_dims:
  "grid_dims g w h \<Longrightarrow> in_grid g x y \<longleftrightarrow> 0 \<le> x \<and> x < w \<and> 0 \<le> y \<and> y < h"
  by (auto simp: grid_dims_def in_grid_def list_all_length)

lemma evaporate_eq:
  assumes w: "wf_field f"
  shows "evaporate rate f =
     Some (f\<lparr>home := map (map (evaporated (factor rate))) (home f),
             food := map (map (evaporated (factor rate))) (food f),
             pathSuccess := map (map (evaporated (success_factor rate))) (pathSuccess f)\<rparr>)"
proof -
  let ?k = "evaporated (factor rate)" and ?kp = "evaporated (success_factor rate)"
  let ?cells = "List.product [0 .. gridW f - 1] [0 .. gridH f - 1]"
  let ?Q = "\<lambda>p t. cell t = cell f \<and> gridW t = gridW f \<and> gridH t = gridH f \<and>
     mapped_on (set p) ?k (home f) (home t) \<and> mapped_on (set p) ?k (food f) (food t) \<and>
     mapped_on (set p) ?kp (pathSuccess f) (pathSuccess t)"
  from w have dh: "grid_dims (home f) (gridW f) (gridH f)"
    and df: "grid_dims (food f) (gridW f) (gridH f)"
    and dp: "grid_dims (pathSuccess f) (gridW f) (gridH f)"
    by (simp_all add: wf_field_def)
  have d: "distinct ([] @ ?cells)"
    by (simp add: distinct_product)
  have q0: "?Q [] f"
    by (simp add: mapped_on_empty)
  have step: "\<exists>t'. (case a of (x, y) \<Rightarrow> evaporate_cell rate x y) t = Some t' \<and> ?Q (p @ [a]) t'"
    if a: "a \<in> set ?cells" and n: "a \<notin> set p" and q: "?Q p t" for p a t
  proof -
    obtain x y where xy: "a = (x, y)" by (cases a)
    with a have r: "0 \<le> x" "x < gridW f" "0 \<le> y" "y < gridH f" by auto
    from q have "in_grid (home t) x y = in_grid (home f) x y"
      by (auto dest: mapped_on_in_grid)
    with r dh have "in_grid (home t) x y"
      by (simp add: in_grid_dims)
    then obtain h where h: "grid_modify (home t) x y ?k = Some h"
      by (simp add: grid_modify_def)
    from q have "in_grid (food t) x y = in_grid (food f) x y"
      by (auto dest: mapped_on_in_grid)
    with r df have "in_grid (food t) x y"
      by (simp add: in_grid_dims)
    then obtain fo where fo: "grid_modify (food t) x y ?k = Some fo"
      by (simp add: grid_modify_def)
    from q have "in_grid (pathSuccess t) x y = in_grid (pathSuccess f) x y"
      by (auto dest: mapped_on_in_grid)
    with r dp have "in_grid (pathSuccess t) x y"
      by (simp add: in_grid_dims)
    then obtain ps where ps: "grid_modify (pathSuccess t) x y ?kp = Some ps"
      by (simp add: grid_modify_def)
    from n xy have n': "(x, y) \<notin> set p" by simp
    from q have "mapped_on (insert (x, y) (set p)) ?k (home f) h"
      "mapped_on (insert (x, y) (set p)) ?k (food f) fo"
      "mapped_on (insert (x, y) (set p)) ?kp (pathSuccess f) ps"
      using mapped_on_step[OF _ h n'] mapped_on_step[OF _ fo n'] mapped_on_step[OF _ ps n']
      by blast+
    with q xy h fo ps show ?thesis
      by (simp add: evaporate_cell_eq)
  qed
  have "\<exists>t'. for_loop (\<lambda>(x, y). evaporate_cell rate x y) ?cells f = Some t' \<and>
          ?Q ([] @ ?cells) t'"
    by (rule for_loop_progress[where Q = ?Q, OF d q0]) (rule step)
  then obtain t where t: "for_loop (\<lambda>(x, y). evaporate_cell rate x y) ?cells f = Some t" "?Q ?cells t"
    by auto
  have all: "(i, j) \<in> set ?cells" if "in_grid g i j" "grid_dims g (gridW f) (gridH f)" for g i j
    using that by (auto simp: in_grid_dims)
  from t(2) have "home t = map (map ?k) (home f)" "food t = map (map ?k) (food f)"
    "pathSuccess t = map (map ?kp) (pathSuccess f)"
    using mapped_on_all[of "set ?cells" ?k "home f" "home t"] all[OF _ dh]
      mapped_on_all[of "set ?cells" ?k "food f" "food t"] all[OF _ df]
      mapped_on_all[of "set ?cells" ?kp "pathSuccess f" "pathSuccess t"] all[OF _ dp]
    by blast+
  with t(2) have "t = f\<lparr>home := map (map ?k) (home f), food := map (map ?k) (food f),
      pathSuccess := map (map ?kp) (pathSuccess f)\<rparr>"
    by simp
  with t(1) show ?thesis
    by (simp add: evaporate_def for_loop_product)
qed

lemma map_map_dims: "grid_dims g w h \<Longrightarrow> grid_dims (map (map k) g) w h"
  by (simp add: grid_dims_def list_all_length)

lemma evaporate_wf:
  assumes "wf_field f" and "evaporate rate f = Some f'"
  shows "wf_field f'"
  using assms evaporate_eq[OF assms(1), of rate]
  by (auto simp: wf_field_def map_map_dims)

lemma evaporations_eq:
  assumes "wf_field f"
  shows "evaporations rate n f =
     Some (f\<lparr>home := map (map (evaporated (factor rate) ^^ n)) (home f),
             food := map (map (evaporated (factor rate) ^^ n)) (food f),
             pathSuccess := map (map (evaporated (success_factor rate) ^^ n)) (pathSuccess f)\<rparr>)"
  using assms
proof (induction n arbitrary: f)
  case 0
  then show ?case by (simp add: map_idI)
next
  case (Suc n)
  let ?f1 = "f\<lparr>home := map (map (evaporated (factor rate))) (home f),
             food := map (map (evaporated (factor rate))) (food f),
             pathSuccess := map (map (evaporated (success_factor rate))) (pathSuccess f)\<rparr>"
  have e: "evaporate rate f = Some ?f1" by (rule evaporate_eq[OF Suc.prems])
  then have "wf_field ?f1" by (rule evaporate_wf[OF Suc.prems])
  from Suc.IH[OF this] e show ?case
    by (simp add: funpow_swap1 comp_def)
qed

lemma factor_range:
  assumes "0 < rate" and "rate < 1"
  shows "0 \<le> factor rate" and "factor rate \<le> 1"
proof -
  from assms show "0 \<le> factor rate" by (simp add: factor_def fl_nonneg)
  from assms fl_mono[of "1 - rate" 1] show "factor rate \<le> 1" by (simp add: factor_def)
qed

lemma literal_03: "0 \<le> fl 0.3" "fl 0.3 \<le> 1 / 2" "1 / 4 \<le> fl 0.3"
proof -
  show "0 \<le> fl 0.3" by (simp add: fl_nonneg)
  from fl_mono[of "0.3" "1 / 2"] show "fl 0.3 \<le> 1 / 2" by simp
  from fl_ge_pow2[of "- 2" "0.3"] show "1 / 4 \<le> fl 0.3" by simp
qed

lemma literal_001: "1 / 128 \<le> fl 0.01" "fl 0.01 \<le> 1"
proof -
  from fl_ge_pow2[of "- 7" "0.01"] show "1 / 128 \<le> fl 0.01" by simp
  from fl_mono[of "0.01" 1] show "fl 0.01 \<le> 1" by simp
qed

lemma success_term_range:
  assumes "0 < rate" and "rate < 1"
  shows "0 \<le> fl (rate * fl 0.3)" and "fl (rate * fl 0.3) \<le> 1 / 2"
proof -
  from assms literal_03 have p: "0 \<le> rate * fl 0.3" by simp
  then show "0 \<le> fl (rate * fl 0.3)" by (rule fl_nonneg)
  have "rate * fl 0.3 \<le> 1 * (1 / 2)"
    using assms literal_03 by (intro mult_mono) simp_all
  with fl_mono[OF p, of "1 / 2"] show "fl (rate * fl 0.3) \<le> 1 / 2" by simp
qed

lemma success_factor_range:
  assumes "0 < rate" and "rate < 1"
  shows "0 \<le> success_factor rate" and "success_factor rate \<le> 1"
proof -
  note t = success_term_range[OF assms]
  from t show "0 \<le> success_factor rate" by (simp add: success_factor_def fl_nonneg)
  from t fl_mono[of "1 - fl (rate * fl 0.3)" 1] show "success_factor rate \<le> 1"
    by (simp add: success_factor_def)
qed

lemma factors_below_one:
  assumes "1 / 2 ^ 51 \<le> rate" and "rate < 1"
  shows "factor rate < 1" and "success_factor rate < 1"
proof -
  from assms have pos: "0 < rate" by (simp add: less_le_trans[of 0 "1 / 2 ^ 51"])
  have b: "fl (1 - 1 / 2 ^ 53) < 1" unfolding fl_below_one by simp
  have "1 - rate \<le> 1 - 1 / 2 ^ 53" using assms(1) by simp
  with assms(2) have "fl (1 - rate) \<le> fl (1 - 1 / 2 ^ 53)" by (intro fl_mono) simp_all
  with b show "factor rate < 1" by (simp add: factor_def)
  have "pow2 (- 53) = 1 / 2 ^ 51 * (1 / 4)" by simp
  also have "\<dots> \<le> rate * fl 0.3"
    using assms(1) literal_03 by (intro mult_mono) simp_all
  finally have "pow2 (- 53) \<le> fl (rate * fl 0.3)" by (rule fl_ge_pow2) simp
  then have u: "1 - fl (rate * fl 0.3) \<le> 1 - 1 / 2 ^ 53" by simp
  from success_term_range[OF pos assms(2)] have "0 \<le> 1 - fl (rate * fl 0.3)" by simp
  from fl_mono[OF this u] b show "success_factor rate < 1" by (simp add: success_factor_def)
qed

lemma fl_near_one:
  assumes "1 - 1 / 2 ^ 55 \<le> x" and "x \<le> 1"
  shows "fl x = 1"
proof (cases "x = 1")
  case True
  then show ?thesis by simp
next
  case False
  with assms have x: "1 / 2 \<le> x" "x < 1" "x \<noteq> 0" "0 < x" by simp_all
  have "expo x \<le> - 53" using x by (intro expo_le) simp_all
  moreover have "- 53 \<le> expo x" using x by (intro expo_ge) simp_all
  ultimately have e: "expo x = - 53" by simp
  have "2 ^ 53 - 1 / 4 \<le> x * 2 ^ 53" using assms(1) by simp
  with rne_bounds(1)[of "x * 2 ^ 53"] have "2 ^ 53 - 3 / 4 \<le> real_of_int (rne (x * 2 ^ 53))"
    by simp
  then have "real_of_int (2 ^ 53 - 1) < real_of_int (rne (x * 2 ^ 53))" by simp
  then have "2 ^ 53 - 1 < rne (x * 2 ^ 53)" by (simp only: of_int_less_iff)
  then have "2 ^ 53 \<le> rne (x * 2 ^ 53)" by simp
  then have "real_of_int (2 ^ 53) \<le> real_of_int (rne (x * 2 ^ 53))" by (simp only: of_int_le_iff)
  then have "1 \<le> fl x" by (simp add: fl_def e)
  moreover from fl_mono[of x 1] x have "fl x \<le> 1" by simp
  ultimately show ?thesis by simp
qed

lemma factors_one:
  assumes "0 < rate" and "rate \<le> 1 / 2 ^ 55"
  shows "factor rate = 1" and "success_factor rate = 1"
proof -
  from assms show "factor rate = 1" unfolding factor_def by (intro fl_near_one) simp_all
  from assms have r1: "rate < 1" by (simp add: le_less_trans[of rate "1 / 2 ^ 55"])
  have "rate * fl 0.3 \<le> 1 / 2 ^ 55 * 1"
    using assms literal_03 by (intro mult_mono) simp_all
  moreover have "0 \<le> rate * fl 0.3" using assms literal_03 by simp
  ultimately have "\<bar>rate * fl 0.3\<bar> \<le> pow2 (- 55)" by simp
  then have "\<bar>fl (rate * fl 0.3)\<bar> \<le> pow2 (- 55)" by (rule fl_abs_le) simp
  then have "fl (rate * fl 0.3) \<le> 1 / 2 ^ 55" by simp
  with success_term_range[OF assms(1) r1] show "success_factor rate = 1"
    unfolding success_factor_def by (intro fl_near_one) simp_all
qed

lemma evaporated_nonneg: "0 \<le> evaporated c v"
  using literal_001(1) by (simp add: evaporated_def)

lemma evaporated_double: "fl (evaporated c v) = evaporated c v"
  by (simp add: evaporated_def fl_idem)

lemma evaporated_le:
  assumes "fl v = v" and "0 \<le> v" and "0 \<le> c" and "c \<le> 1"
  shows "evaporated c v \<le> v"
proof -
  have "v * c \<le> v" using assms(2,4) by (simp add: mult_left_le)
  moreover have "0 \<le> v * c" using assms(2,3) by simp
  ultimately have "fl (v * c) \<le> fl v" by (intro fl_mono)
  with assms(1,2) show ?thesis by (simp add: evaporated_def)
qed

lemma evaporated_one: "fl v = v \<Longrightarrow> fl 0.01 \<le> v \<Longrightarrow> evaporated 1 v = v"
  by (simp add: evaporated_def)

lemma evaporated_step:
  assumes v: "fl v = v" and c: "0 \<le> c" "c \<le> 1 - 1 / 2 ^ 53"
  shows "evaporated c v = 0 \<or> (1 / 128 \<le> evaporated c v \<and> evaporated c v \<le> v - 1 / 2 ^ 59)"
proof (cases "fl (v * c) < fl 0.01")
  case True
  then show ?thesis by (simp add: evaporated_def)
next
  case False
  then have e: "evaporated c v = fl (v * c)" by (simp add: evaporated_def)
  from False literal_001(1) have big: "1 / 128 \<le> fl (v * c)" by simp
  have pos: "0 < v"
  proof (rule ccontr)
    assume "\<not> 0 < v"
    with c(1) have "v * c \<le> 0" by (simp add: mult_nonpos_nonneg)
    then have "fl (v * c) \<le> 0" by (rule fl_nonpos)
    with big show False by simp
  qed
  have "v * c \<le> v" using pos c by (simp add: mult_left_le)
  moreover have "0 \<le> v * c" using pos c by simp
  ultimately have "fl (v * c) \<le> fl v" by (intro fl_mono)
  with big v have vb: "pow2 (- 7) \<le> v" by simp
  from fl_decrease[OF v vb c] have "fl (v * c) < v" .
  moreover from big have "pow2 (- 7) \<le> fl (v * c)" by simp
  ultimately have "fl (v * c) \<le> v - 1 / 2 ^ 59"
    using v by (intro double_gap) (simp_all add: fl_idem)
  with big e show ?thesis by simp
qed

lemma evaporated_iter:
  assumes v: "fl v = v" and c: "0 \<le> c" "c \<le> 1 - 1 / 2 ^ 53"
  shows "fl ((evaporated c ^^ n) v) = (evaporated c ^^ n) v \<and>
         ((0 < n \<and> (evaporated c ^^ n) v = 0) \<or>
          (evaporated c ^^ n) v \<le> v - real n / 2 ^ 59)"
proof (induction n)
  case 0
  with v show ?case by simp
next
  case (Suc n)
  define w where "w = (evaporated c ^^ n) v"
  have s: "(evaporated c ^^ Suc n) v = evaporated c w" by (simp add: w_def)
  from Suc.IH have w: "fl w = w" and b: "w = 0 \<or> w \<le> v - real n / 2 ^ 59"
    by (auto simp: w_def)
  have z: "evaporated c 0 = 0" using literal_001(1) by (simp add: evaporated_def)
  from evaporated_step[OF w c] b z
  have "evaporated c w = 0 \<or> evaporated c w \<le> v - real n / 2 ^ 59 - 1 / 2 ^ 59"
    by auto
  then have "evaporated c w = 0 \<or> evaporated c w \<le> v - real (Suc n) / 2 ^ 59"
    by (auto simp: add_divide_distrib)
  then show ?case
    unfolding s by (auto simp: evaporated_double)
qed

lemma evaporated_iter_zero:
  assumes "fl v = v" and "0 \<le> c" and "c \<le> 1 - 1 / 2 ^ 53" and "0 < n" and "v * 2 ^ 59 < real n"
  shows "(evaporated c ^^ n) v = 0"
proof -
  from assms(5) have "v - real n / 2 ^ 59 < 0" by (simp add: field_simps)
  moreover have "0 \<le> (evaporated c ^^ n) v"
    using assms(4) evaporated_nonneg[of c "(evaporated c ^^ (n - 1)) v"]
    by (cases n) simp_all
  ultimately show ?thesis
    using evaporated_iter[OF assms(1,2,3), of n] by auto
qed

lemma grid_bound: "\<exists>m. \<forall>row \<in> set g. \<forall>v \<in> set row. v \<le> (m::real)"
proof -
  have "v \<le> Max (insert 0 (set (concat g)))" if "row \<in> set g" "v \<in> set row" for row v
  proof (rule Max_ge)
    show "finite (insert 0 (set (concat g)))" by simp
    from that show "v \<in> insert 0 (set (concat g))" by auto
  qed
  then show ?thesis by blast
qed

lemma grid_zero_map:
  "(\<And>row v. row \<in> set g \<Longrightarrow> v \<in> set row \<Longrightarrow> k v = 0) \<Longrightarrow> grid_zero (map (map k) g)"
  by (simp add: grid_zero_def list_all_iff)

lemma grid_le_map:
  "(\<And>row v. row \<in> set g \<Longrightarrow> v \<in> set row \<Longrightarrow> k v \<le> v) \<Longrightarrow> grid_le (map (map k) g) g"
  by (auto simp: grid_le_def list_all2_conv_all_nth intro!: nth_mem)

lemma grid_doubles_at: "grid_doubles g \<Longrightarrow> row \<in> set g \<Longrightarrow> v \<in> set row \<Longrightarrow> fl v = v"
  by (auto simp: grid_doubles_def list_all_iff)

lemma grid_nonneg_mem: "grid_nonneg g \<Longrightarrow> row \<in> set g \<Longrightarrow> v \<in> set row \<Longrightarrow> 0 \<le> v"
  by (auto simp: grid_nonneg_def list_all_iff)

lemma evaporations_reach_zero:
  assumes w: "wf_field f" and d: "doubles_field f"
    and r: "0 < rate" "rate < 1" and c: "factor rate < 1" "success_factor rate < 1"
  shows "\<exists>n f'. evaporations rate n f = Some f' \<and>
           grid_zero (home f') \<and> grid_zero (food f') \<and> grid_zero (pathSuccess f')"
proof -
  let ?c = "factor rate" and ?cp = "success_factor rate"
  from c(1) have c1: "?c \<le> 1 - 1 / 2 ^ 53"
    unfolding factor_def by (rule fl_less_one)
  from c(2) have cp1: "?cp \<le> 1 - 1 / 2 ^ 53"
    unfolding success_factor_def by (rule fl_less_one)
  note c0 = factor_range(1)[OF r] and cp0 = success_factor_range(1)[OF r]
  from d have dd: "grid_doubles (home f)" "grid_doubles (food f)" "grid_doubles (pathSuccess f)"
    by (simp_all add: doubles_field_def)
  obtain m1 m2 m3 where m: "\<forall>row \<in> set (home f). \<forall>v \<in> set row. v \<le> m1"
    "\<forall>row \<in> set (food f). \<forall>v \<in> set row. v \<le> m2"
    "\<forall>row \<in> set (pathSuccess f). \<forall>v \<in> set row. v \<le> m3"
    using grid_bound[of "home f"] grid_bound[of "food f"] grid_bound[of "pathSuccess f"] by blast
  define m where "m = max 0 (max m1 (max m2 m3))"
  have m0: "0 \<le> m" and mb: "m1 \<le> m" "m2 \<le> m" "m3 \<le> m" by (simp_all add: m_def)
  obtain n where n: "m * 2 ^ 59 < real n" using reals_Archimedean2 by blast
  with m0 have "0 < real n" by (simp add: le_less_trans[of 0 "m * 2 ^ 59"])
  then have n0: "0 < n" by simp
  have small: "v * 2 ^ 59 < real n" if "v \<le> m" for v
  proof -
    from that have "v * 2 ^ 59 \<le> m * 2 ^ 59" by simp
    with n show ?thesis by simp
  qed
  have "grid_zero (map (map (evaporated ?c ^^ n)) (home f))"
  proof (rule grid_zero_map)
    fix row v assume rv: "row \<in> set (home f)" "v \<in> set row"
    with m(1) mb(1) have "v \<le> m" by force
    from evaporated_iter_zero[OF grid_doubles_at[OF dd(1) rv] c0 c1 n0 small[OF this]]
    show "(evaporated ?c ^^ n) v = 0" .
  qed
  moreover have "grid_zero (map (map (evaporated ?c ^^ n)) (food f))"
  proof (rule grid_zero_map)
    fix row v assume rv: "row \<in> set (food f)" "v \<in> set row"
    with m(2) mb(2) have "v \<le> m" by force
    from evaporated_iter_zero[OF grid_doubles_at[OF dd(2) rv] c0 c1 n0 small[OF this]]
    show "(evaporated ?c ^^ n) v = 0" .
  qed
  moreover have "grid_zero (map (map (evaporated ?cp ^^ n)) (pathSuccess f))"
  proof (rule grid_zero_map)
    fix row v assume rv: "row \<in> set (pathSuccess f)" "v \<in> set row"
    with m(3) mb(3) have "v \<le> m" by force
    from evaporated_iter_zero[OF grid_doubles_at[OF dd(3) rv] cp0 cp1 n0 small[OF this]]
    show "(evaporated ?cp ^^ n) v = 0" .
  qed
  ultimately show ?thesis
    by (intro exI[of _ n]) (simp add: evaporations_eq[OF w])
qed

lemma evaporate_decreases:
  assumes w: "wf_field f" and d: "doubles_field f" and nn: "nonneg_field f"
    and r: "0 < rate" "rate < 1"
  shows "\<exists>f'. evaporate rate f = Some f' \<and> grid_le (home f') (home f) \<and>
           grid_le (food f') (food f) \<and> grid_le (pathSuccess f') (pathSuccess f)"
proof -
  let ?c = "factor rate" and ?cp = "success_factor rate"
  note c = factor_range[OF r] and cp = success_factor_range[OF r]
  from d have dd: "grid_doubles (home f)" "grid_doubles (food f)" "grid_doubles (pathSuccess f)"
    by (simp_all add: doubles_field_def)
  from nn have n: "grid_nonneg (home f)" "grid_nonneg (food f)" "grid_nonneg (pathSuccess f)"
    by (simp_all add: nonneg_field_def)
  have "grid_le (map (map (evaporated ?c)) (home f)) (home f)"
    by (intro grid_le_map evaporated_le c grid_doubles_at[OF dd(1)] grid_nonneg_mem[OF n(1)])
  moreover have "grid_le (map (map (evaporated ?c)) (food f)) (food f)"
    by (intro grid_le_map evaporated_le c grid_doubles_at[OF dd(2)] grid_nonneg_mem[OF n(2)])
  moreover have "grid_le (map (map (evaporated ?cp)) (pathSuccess f)) (pathSuccess f)"
    by (intro grid_le_map evaporated_le cp grid_doubles_at[OF dd(3)] grid_nonneg_mem[OF n(3)])
  ultimately show ?thesis
    by (simp add: evaporate_eq[OF w])
qed

lemma evaporate_doubles:
  assumes "wf_field f" and "evaporate rate f = Some f'"
  shows "doubles_field f'"
  using assms(2) evaporate_eq[OF assms(1), of rate]
  by (auto simp: doubles_field_def grid_doubles_def list_all_iff evaporated_double)

lemma evaporations_fixed:
  assumes "evaporate rate f = Some f"
  shows "evaporations rate n f = Some f"
  by (induction n) (simp_all add: assms)

text \<open>
  Claim C7, as amended. The cells are doubles, and \<open>evaporate\<close> computes in doubles. For
  every rate \<open>r\<close> with \<open>0 < r < 1\<close>: one call of \<open>evaporate\<close> on a field whose cells are not
  negative (which is how the constructor, the deposits and \<open>evaporate\<close> itself leave them)
  leaves every cell of the three grids at most its value before the call; and if moreover
  \<open>2 ^ -51 \<le> r\<close>, then from every well-formed field some finite number of \<open>evaporate\<close> calls
  with no deposit in between makes every cell exactly 0.
\<close>

theorem evaporation_decreases_to_zero:
  assumes "wf_field f" and "doubles_field f" and "0 < rate" and "rate < 1"
  shows "(nonneg_field f \<longrightarrow>
           (\<exists>f'. evaporate rate f = Some f' \<and> grid_le (home f') (home f) \<and>
                 grid_le (food f') (food f) \<and> grid_le (pathSuccess f') (pathSuccess f))) \<and>
         (1 / 2 ^ 51 \<le> rate \<longrightarrow>
           (\<exists>n f'. evaporations rate n f = Some f' \<and>
                 grid_zero (home f') \<and> grid_zero (food f') \<and> grid_zero (pathSuccess f')))"
proof (intro conjI impI)
  assume "nonneg_field f"
  with assms show "\<exists>f'. evaporate rate f = Some f' \<and> grid_le (home f') (home f) \<and>
      grid_le (food f') (food f) \<and> grid_le (pathSuccess f') (pathSuccess f)"
    by (intro evaporate_decreases)
next
  assume "1 / 2 ^ 51 \<le> rate"
  from factors_below_one[OF this assms(4)] assms
  show "\<exists>n f'. evaporations rate n f = Some f' \<and>
      grid_zero (home f') \<and> grid_zero (food f') \<and> grid_zero (pathSuccess f')"
    by (intro evaporations_reach_zero)
qed

theorem evaporation_decreases_to_zero_witness:
  "wf_field \<lparr>cell = 6, gridW = 1, gridH = 2, home = [[5, 1 / 64]], food = [[0, 2]],
             pathSuccess = [[1, 0]]\<rparr> \<and>
   doubles_field \<lparr>cell = 6, gridW = 1, gridH = 2, home = [[5, 1 / 64]], food = [[0, 2]],
             pathSuccess = [[1, 0]]\<rparr> \<and>
   nonneg_field \<lparr>cell = 6, gridW = 1, gridH = 2, home = [[5, 1 / 64]], food = [[0, 2]],
             pathSuccess = [[1, 0]]\<rparr> \<and>
   (\<exists>f'. evaporate (1 / 64) \<lparr>cell = 6, gridW = 1, gridH = 2, home = [[5, 1 / 64]],
             food = [[0, 2]], pathSuccess = [[1, 0]]\<rparr> = Some f' \<and>
         grid_le (home f') [[5, 1 / 64]] \<and> grid_le (food f') [[0, 2]] \<and>
         grid_le (pathSuccess f') [[1, 0]]) \<and>
   (\<exists>n f'. evaporations (1 / 64) n \<lparr>cell = 6, gridW = 1, gridH = 2, home = [[5, 1 / 64]],
             food = [[0, 2]], pathSuccess = [[1, 0]]\<rparr> = Some f' \<and>
         grid_zero (home f') \<and> grid_zero (food f') \<and> grid_zero (pathSuccess f'))"
proof -
  let ?f = "\<lparr>cell = 6, gridW = 1, gridH = 2, home = [[5, 1 / 64]], food = [[0, 2]],
             pathSuccess = [[1, 0]]\<rparr>"
  have w: "wf_field ?f"
    by (simp add: wf_field_def grid_dims_def)
  have s: "fl (1 / 64) = 1 / 64"
    using fl_pow2[of "- 6"] by simp
  have d: "doubles_field ?f"
    by (simp add: doubles_field_def grid_doubles_def s fl_numeral)
  have n: "nonneg_field ?f"
    by (simp add: nonneg_field_def grid_nonneg_def)
  have r: "(0::real) < 1 / 64" "(1 / 64 :: real) < 1" "(1 / 2 ^ 51 :: real) \<le> 1 / 64"
    by simp_all
  from evaporation_decreases_to_zero[OF w d r(1,2)] n r(3) w d show ?thesis
    by simp
qed

text \<open>
  The claim as stated, for every rate in \<open>(0, 1)\<close>, fails. For the rate \<open>2 ^ -60\<close> the
  factors \<open>1 - rate\<close> and \<open>1 - rate * 0.3\<close> are the double 1, \<open>evaporate\<close> leaves a cell
  that holds 1 as it is, and no number of calls brings it to 0. The same happens for every
  rate up to \<open>2 ^ -55\<close> (lemma \<open>factors_one\<close>), \<open>1e-17\<close> among them.
\<close>

theorem evaporation_tiny_rate:
  "(0::real) < 1 / 2 ^ 60 \<and> (1 / 2 ^ 60 :: real) < 1 \<and>
   wf_field \<lparr>cell = 6, gridW = 1, gridH = 1, home = [[1]], food = [[0]], pathSuccess = [[1]]\<rparr> \<and>
   factor (1 / 2 ^ 60) = 1 \<and> success_factor (1 / 2 ^ 60) = 1 \<and>
   evaporate (1 / 2 ^ 60)
       \<lparr>cell = 6, gridW = 1, gridH = 1, home = [[1]], food = [[0]], pathSuccess = [[1]]\<rparr>
     = Some \<lparr>cell = 6, gridW = 1, gridH = 1, home = [[1]], food = [[0]], pathSuccess = [[1]]\<rparr> \<and>
   (\<forall>n. evaporations (1 / 2 ^ 60) n
          \<lparr>cell = 6, gridW = 1, gridH = 1, home = [[1]], food = [[0]], pathSuccess = [[1]]\<rparr>
        = Some \<lparr>cell = 6, gridW = 1, gridH = 1, home = [[1]], food = [[0]], pathSuccess = [[1]]\<rparr>) \<and>
   \<not> grid_zero (home \<lparr>cell = 6, gridW = 1, gridH = 1, home = [[1]], food = [[0]],
                      pathSuccess = [[1]]\<rparr>)"
proof -
  let ?f = "\<lparr>cell = 6, gridW = 1, gridH = 1, home = [[1]], food = [[0]], pathSuccess = [[1]]\<rparr>"
  have r: "(0::real) < 1 / 2 ^ 60" "(1 / 2 ^ 60 :: real) \<le> 1 / 2 ^ 55" "(1 / 2 ^ 60 :: real) < 1"
    by simp_all
  note c = factors_one[OF r(1,2)]
  have w: "wf_field ?f"
    by (simp add: wf_field_def grid_dims_def)
  have one: "evaporated 1 1 = 1"
    using literal_001(2) by (intro evaporated_one) simp_all
  have zero: "evaporated 1 0 = 0"
    using literal_001(1) by (simp add: evaporated_def)
  have e: "evaporate (1 / 2 ^ 60) ?f = Some ?f"
    unfolding evaporate_eq[OF w] c by (simp add: one zero)
  have "\<forall>n. evaporations (1 / 2 ^ 60) n ?f = Some ?f"
    using evaporations_fixed[OF e] by blast
  moreover have "\<not> grid_zero (home ?f)" by (simp add: grid_zero_def)
  ultimately show ?thesis using r(1,3) w c e by (intro conjI)
qed

lemma factors_one_1e17: "factor (1 / 10 ^ 17) = 1" "success_factor (1 / 10 ^ 17) = 1"
  by (rule factors_one; simp)+

section \<open>Deposits\<close>

lemma spread_distance_one:
  assumes "spread_distance dx dy > 0" and "spread_distance dx dy \<le> real_of_int spreadRadius"
  shows "spread_distance dx dy = 1"
proof -
  let ?k = "dx * dx + dy * dy"
  from assms(2) have "real_of_int ?k \<le> 1"
    by (simp add: spread_distance_def spreadRadius_def)
  moreover from assms(1) have "real_of_int ?k > 0"
    by (simp add: spread_distance_def)
  ultimately have "?k = 1" by linarith
  then show ?thesis by (simp add: spread_distance_def)
qed

lemma spreadAmount_zero:
  assumes "spread_distance dx dy > 0" and "spread_distance dx dy \<le> real_of_int spreadRadius"
  shows "spreadAmount amt successBonus dx dy = 0"
  using spread_distance_one[OF assms] by (simp add: spreadAmount_def spreadRadius_def)

lemma grid_modify_id:
  "in_grid g x y \<Longrightarrow> k (g ! nat x ! nat y) = g ! nat x ! nat y \<Longrightarrow> grid_modify g x y k = Some g"
  by (simp add: grid_modify_def)

lemma grid_bounded_at: "grid_bounded c g \<Longrightarrow> in_grid g x y \<Longrightarrow> g ! nat x ! nat y \<le> c"
proof -
  assume b: "grid_bounded c g" and "in_grid g x y"
  then have "nat x < length g" "nat y < length (g ! nat x)"
    by (auto simp: in_grid_def)
  with b show ?thesis
    by (simp add: grid_bounded_def list_all_length)
qed

lemma grid_modify_list_all:
  assumes "list_all (list_all P) g" and "grid_modify g x y k = Some g'"
    and "P (k (g ! nat x ! nat y))"
  shows "list_all (list_all P) g'"
proof -
  have "P (g' ! i ! j)" if "i < length g'" "j < length (g' ! i)" for i j
  proof -
    from that have "in_grid g' (int i) (int j)" by (simp add: in_grid_def)
    then have ig: "in_grid g (int i) (int j)" using grid_modify_in_grid[OF assms(2)] by simp
    then have "P (g ! i ! j)" using assms(1) by (simp add: in_grid_def list_all_length)
    with grid_modify_at[OF assms(2) ig] assms(3) show ?thesis
      by (auto split: if_splits)
  qed
  then show ?thesis by (simp add: list_all_length)
qed

lemma grid_modify_bounded:
  "grid_bounded c g \<Longrightarrow> grid_modify g x y k = Some g' \<Longrightarrow> k (g ! nat x ! nat y) \<le> c \<Longrightarrow>
   grid_bounded c g'"
  unfolding grid_bounded_def by (rule grid_modify_list_all)

lemma grid_modify_nonneg:
  "grid_nonneg g \<Longrightarrow> grid_modify g x y k = Some g' \<Longrightarrow> 0 \<le> k (g ! nat x ! nat y) \<Longrightarrow>
   grid_nonneg g'"
  unfolding grid_nonneg_def by (rule grid_modify_list_all)

lemma grid_nonneg_at: "grid_nonneg g \<Longrightarrow> in_grid g x y \<Longrightarrow> 0 \<le> g ! nat x ! nat y"
proof -
  assume b: "grid_nonneg g" and "in_grid g x y"
  then have "nat x < length g" "nat y < length (g ! nat x)"
    by (auto simp: in_grid_def)
  with b show ?thesis
    by (simp add: grid_nonneg_def list_all_length)
qed

lemma spread_cell_id:
  assumes "wf_field f" and "grid_bounded 1000 (home f)" and "grid_bounded 1000 (food f)"
  shows "spread_cell type amt successBonus gx gy dx dy f = Some f"
proof (cases "gx + dx \<ge> 0 \<and> gx + dx < gridW f \<and> gy + dy \<ge> 0 \<and> gy + dy < gridH f \<and>
              spread_distance dx dy > 0 \<and> spread_distance dx dy \<le> real_of_int spreadRadius")
  case True
  then have z: "spreadAmount amt successBonus dx dy = 0" by (simp add: spreadAmount_zero)
  from True assms(1) have ig: "in_grid (home f) (gx + dx) (gy + dy)"
    "in_grid (food f) (gx + dx) (gy + dy)"
    by (auto simp: wf_field_def intro: grid_dims_in_grid)
  have "grid_modify (home f) (gx + dx) (gy + dy) (\<lambda>v. min (v + 0) 1000) = Some (home f)"
    using grid_bounded_at[OF assms(2) ig(1)] by (intro grid_modify_id ig) simp
  moreover have "grid_modify (food f) (gx + dx) (gy + dy) (\<lambda>v. min (v + 0) 1000) = Some (food f)"
    using grid_bounded_at[OF assms(3) ig(2)] by (intro grid_modify_id ig) simp
  ultimately show ?thesis using True z
    by (simp add: spread_cell_def Let_def channel_modify_def)
next
  case False
  then show ?thesis by (auto simp: spread_cell_def Let_def)
qed

lemma spread_loops_id:
  assumes "wf_field f" and "grid_bounded 1000 (home f)" and "grid_bounded 1000 (food f)"
  shows "for_loop (\<lambda>dx. for_loop (spread_cell type amt successBonus gx gy dx) ys) xs f = Some f"
proof -
  have inner: "for_loop (spread_cell type amt successBonus gx gy dx) ys f = Some f" for dx
    using for_loop_invariant[where P = "\<lambda>t. t = f" and s = f
        and body = "spread_cell type amt successBonus gx gy dx" and xs = ys]
      spread_cell_id[OF assms]
    by simp
  show ?thesis
    using for_loop_invariant[where P = "\<lambda>t. t = f" and s = f and xs = xs
        and body = "\<lambda>dx. for_loop (spread_cell type amt successBonus gx gy dx) ys"] inner
    by simp
qed

lemma channel_modify_bounded:
  assumes "grid_bounded 1000 (home f)" and "grid_bounded 1000 (food f)"
    and "channel_modify f type x y (\<lambda>v. min (v + a) 1000) = Some f1"
  shows "grid_bounded 1000 (home f1) \<and> grid_bounded 1000 (food f1)"
proof (cases "type = ''home''")
  case True
  with assms(3) obtain g where g: "grid_modify (home f) x y (\<lambda>v. min (v + a) 1000) = Some g"
    and f1: "f1 = f\<lparr>home := g\<rparr>"
    by (auto simp: channel_modify_def)
  from grid_modify_bounded[OF assms(1) g] f1 assms(2) show ?thesis by simp
next
  case False
  with assms(3) obtain g where g: "grid_modify (food f) x y (\<lambda>v. min (v + a) 1000) = Some g"
    and f1: "f1 = f\<lparr>food := g\<rparr>"
    by (auto simp: channel_modify_def)
  from grid_modify_bounded[OF assms(2) g] f1 assms(1) show ?thesis by simp
qed

lemma deposit_eq:
  assumes w: "wf_field f" and bh: "grid_bounded 1000 (home f)" and bf: "grid_bounded 1000 (food f)"
  shows "deposit f pos type amt successBonus =
     (case index f pos of (gx, gy) \<Rightarrow>
        do {
          f1 \<leftarrow> channel_modify f type gx gy (\<lambda>v. min (v + amt * successBonus) 1000);
          ps \<leftarrow> grid_modify (pathSuccess f1) gx gy (\<lambda>v. v + successBonus * 0.1);
          Some (f1\<lparr>pathSuccess := ps\<rparr>)
        })"
proof -
  obtain gx gy where ix: "index f pos = (gx, gy)" by (cases "index f pos")
  note b = index_bounds[OF w ix]
  from channel_modify_total[OF w, of gx gy type "\<lambda>v. min (v + amt * successBonus) 1000"] b
  obtain f1 where f1: "channel_modify f type gx gy (\<lambda>v. min (v + amt * successBonus) 1000) = Some f1"
      "same_shape f f1" by auto
  then have wf1: "wf_field f1" and dims: "gridW f1 = gridW f" "gridH f1 = gridH f"
    by (simp_all add: same_shape_def)
  from grid_modify_total[of "pathSuccess f1" "gridW f" "gridH f" gx gy "\<lambda>v. v + successBonus * 0.1"]
    b wf1 dims
  obtain ps where ps: "grid_modify (pathSuccess f1) gx gy (\<lambda>v. v + successBonus * 0.1) = Some ps"
      "grid_dims ps (gridW f) (gridH f)" by (auto simp: wf_field_def)
  let ?f2 = "f1\<lparr>pathSuccess := ps\<rparr>"
  have "wf_field ?f2" using wf1 dims ps(2) by (auto simp: wf_field_def)
  moreover have "grid_bounded 1000 (home ?f2)" "grid_bounded 1000 (food ?f2)"
    using channel_modify_bounded[OF bh bf f1(1)] by simp_all
  ultimately have "for_loop (\<lambda>dx. for_loop (spread_cell type amt successBonus gx gy dx)
      [- spreadRadius .. spreadRadius]) [- spreadRadius .. spreadRadius] ?f2 = Some ?f2"
    by (rule spread_loops_id)
  with ix f1(1) ps(1) show ?thesis
    by (simp add: deposit_def)
qed

lemma deposit_effect:
  assumes w: "wf_field f" and bh: "grid_bounded 1000 (home f)" and bf: "grid_bounded 1000 (food f)"
    and ix: "index f pos = (gx, gy)"
  shows "\<exists>f'. deposit f pos type amt successBonus = Some f' \<and> same_shape f f' \<and>
           grid_bounded 1000 (home f') \<and> grid_bounded 1000 (food f') \<and>
           pathSuccess f' ! nat gx ! nat gy = pathSuccess f ! nat gx ! nat gy + successBonus * 0.1 \<and>
           (\<forall>i j. 0 \<le> i \<and> i < gridW f \<and> 0 \<le> j \<and> j < gridH f \<and> (i, j) \<noteq> (gx, gy) \<longrightarrow>
              home f' ! nat i ! nat j = home f ! nat i ! nat j \<and>
              food f' ! nat i ! nat j = food f ! nat i ! nat j \<and>
              pathSuccess f' ! nat i ! nat j = pathSuccess f ! nat i ! nat j)"
proof -
  note b = index_bounds[OF w ix]
  from w have dh: "grid_dims (home f) (gridW f) (gridH f)"
    and df: "grid_dims (food f) (gridW f) (gridH f)"
    and dp: "grid_dims (pathSuccess f) (gridW f) (gridH f)"
    by (simp_all add: wf_field_def)
  from channel_modify_total[OF w, of gx gy type "\<lambda>v. min (v + amt * successBonus) 1000"] b
  obtain f1 where f1: "channel_modify f type gx gy (\<lambda>v. min (v + amt * successBonus) 1000) = Some f1"
      "same_shape f f1" "pathSuccess f1 = pathSuccess f" by auto
  from grid_modify_total[OF dp, of gx gy "\<lambda>v. v + successBonus * 0.1"] b
  obtain ps where ps: "grid_modify (pathSuccess f) gx gy (\<lambda>v. v + successBonus * 0.1) = Some ps"
      "grid_dims ps (gridW f) (gridH f)" by auto
  let ?f' = "f1\<lparr>pathSuccess := ps\<rparr>"
  have d: "deposit f pos type amt successBonus = Some ?f'"
    using f1 ps ix by (simp add: deposit_eq[OF w bh bf])
  have s: "same_shape f ?f'"
    using f1(2) ps(2) by (auto simp: same_shape_def wf_field_def)
  have bd: "grid_bounded 1000 (home ?f') \<and> grid_bounded 1000 (food ?f')"
    using channel_modify_bounded[OF bh bf f1(1)] by simp
  have "in_grid (pathSuccess f) gx gy" using dp b by (auto intro: grid_dims_in_grid)
  from grid_modify_at[OF ps(1) this]
  have p1: "pathSuccess ?f' ! nat gx ! nat gy = pathSuccess f ! nat gx ! nat gy + successBonus * 0.1"
    by simp
  have others: "home ?f' ! nat i ! nat j = home f ! nat i ! nat j \<and>
      food ?f' ! nat i ! nat j = food f ! nat i ! nat j \<and>
      pathSuccess ?f' ! nat i ! nat j = pathSuccess f ! nat i ! nat j"
    if r: "0 \<le> i" "i < gridW f" "0 \<le> j" "j < gridH f" and ne: "(i, j) \<noteq> (gx, gy)" for i j
  proof -
    from r dh df dp have ig: "in_grid (home f) i j" "in_grid (food f) i j"
      "in_grid (pathSuccess f) i j"
      by (auto intro: grid_dims_in_grid)
    from grid_modify_at[OF ps(1) ig(3)] ne
    have "pathSuccess ?f' ! nat i ! nat j = pathSuccess f ! nat i ! nat j" by auto
    moreover have "home f1 ! nat i ! nat j = home f ! nat i ! nat j \<and>
        food f1 ! nat i ! nat j = food f ! nat i ! nat j"
    proof (cases "type = ''home''")
      case True
      with f1(1) obtain g where g: "grid_modify (home f) gx gy (\<lambda>v. min (v + amt * successBonus) 1000) = Some g"
        "f1 = f\<lparr>home := g\<rparr>" by (auto simp: channel_modify_def)
      from grid_modify_at[OF g(1) ig(1)] ne g(2) show ?thesis by auto
    next
      case False
      with f1(1) obtain g where g: "grid_modify (food f) gx gy (\<lambda>v. min (v + amt * successBonus) 1000) = Some g"
        "f1 = f\<lparr>food := g\<rparr>" by (auto simp: channel_modify_def)
      from grid_modify_at[OF g(1) ig(2)] ne g(2) show ?thesis by auto
    qed
    ultimately show ?thesis by simp
  qed
  from d s bd p1 others show ?thesis by blast
qed

lemma deposit_primary:
  assumes w: "wf_field f" and bh: "grid_bounded 1000 (home f)" and bf: "grid_bounded 1000 (food f)"
    and ix: "index f pos = (gx, gy)" and d: "deposit f pos type amt successBonus = Some f'"
  shows "(if type = ''home'' then home f' else food f') ! nat gx ! nat gy =
         min ((if type = ''home'' then home f else food f) ! nat gx ! nat gy + amt * successBonus) 1000"
proof -
  note b = index_bounds[OF w ix]
  from w b have ig: "in_grid (home f) gx gy" "in_grid (food f) gx gy" "in_grid (pathSuccess f) gx gy"
    by (auto simp: wf_field_def intro: grid_dims_in_grid)
  from d ix obtain f1 ps where
    f1: "channel_modify f type gx gy (\<lambda>v. min (v + amt * successBonus) 1000) = Some f1"
    and f': "f' = f1\<lparr>pathSuccess := ps\<rparr>"
    by (auto simp: deposit_eq[OF w bh bf] split: Option.bind_splits)
  show ?thesis
  proof (cases "type = ''home''")
    case True
    with f1 obtain g where g: "grid_modify (home f) gx gy (\<lambda>v. min (v + amt * successBonus) 1000) = Some g"
      "f1 = f\<lparr>home := g\<rparr>" by (auto simp: channel_modify_def)
    from grid_modify_at[OF g(1) ig(1)] g(2) f' True show ?thesis by simp
  next
    case False
    with f1 obtain g where g: "grid_modify (food f) gx gy (\<lambda>v. min (v + amt * successBonus) 1000) = Some g"
      "f1 = f\<lparr>food := g\<rparr>" by (auto simp: channel_modify_def)
    from grid_modify_at[OF g(1) ig(2)] g(2) f' False show ?thesis by simp
  qed
qed

lemma spread_offsets: "[- 1 .. 1] = [- 1, 0, 1 :: int]"
  by (simp add: upto.simps)

text \<open>
  Claim C3. The claim is that a deposit adds \<open>amount * successBonus\<close> to the primary
  cell (clamped), and a smaller positive amount, scaled by \<open>(1 - distance / radius) * 0.3\<close>,
  to the neighbouring cells, so that the neighbours are nonzero after a deposit into an
  all-zero field. The code adds nothing to any neighbour: with \<open>spreadRadius = 1\<close> the
  four cells at distance 1 get the weight \<open>(1 - 1 / 1) * 0.3 = 0\<close> (lemma
  \<open>spreadAmount_zero\<close>) and the four diagonal cells, at distance \<open>sqrt 2\<close>, fail the test
  \<open>distance <= spreadRadius\<close>. Evaluated on a fresh \<open>3 \<times> 3\<close> field, a deposit of 12 in
  the middle cell leaves all eight neighbours at 0.
\<close>

theorem deposit_spreads_nothing:
  "deposit (new_PheromoneField 18 18 6) (Vec 9 9) ''food'' 12 1 =
     Some \<lparr>cell = 6, gridW = 3, gridH = 3,
           home = [[0, 0, 0], [0, 0, 0], [0, 0, 0]],
           food = [[0, 0, 0], [0, 12, 0], [0, 0, 0]],
           pathSuccess = [[0, 0, 0], [0, 0.1, 0], [0, 0, 0]]\<rparr>"
  by (simp add: deposit_def spread_offsets spread_cell_def spread_distance_def spreadAmount_def
      spreadRadius_def channel_modify_def grid_modify_def in_grid_def index_def clamp_def
      new_PheromoneField_def new_grid_def numeral_3_eq_3)

lemma same_shape_index: "same_shape f f' \<Longrightarrow> index f' pos = index f pos"
  by (simp add: same_shape_def index_def)

lemma deposits_bounded:
  assumes "wf_field f" and "grid_bounded 1000 (home f)" and "grid_bounded 1000 (food f)"
  shows "\<exists>f'. deposits f ds = Some f' \<and> same_shape f f' \<and>
           grid_bounded 1000 (home f') \<and> grid_bounded 1000 (food f')"
  using assms
proof (induction ds arbitrary: f)
  case Nil
  then show ?case by (simp add: same_shape_refl)
next
  case (Cons d ds)
  obtain pos type amt b where d: "d = (pos, type, amt, b)" by (cases d)
  obtain gx gy where ix: "index f pos = (gx, gy)" by (cases "index f pos")
  from deposit_effect[OF Cons.prems ix, of type amt b]
  obtain f1 where f1: "deposit f pos type amt b = Some f1" "same_shape f f1"
    "grid_bounded 1000 (home f1)" "grid_bounded 1000 (food f1)" by blast
  then have "wf_field f1" by (simp add: same_shape_def)
  from Cons.IH[OF this f1(3,4)] f1(1,2) d show ?case
    by (auto intro: same_shape_trans)
qed

lemma deposits_pathSuccess:
  assumes "wf_field f" and "grid_bounded 1000 (home f)" and "grid_bounded 1000 (food f)"
    and "index f pos = (gx, gy)"
  shows "\<exists>f'. deposits f (replicate n (pos, type, amt, successBonus)) = Some f' \<and>
           pathSuccess f' ! nat gx ! nat gy =
             pathSuccess f ! nat gx ! nat gy + real n * (successBonus * 0.1)"
  using assms
proof (induction n arbitrary: f)
  case 0
  then show ?case by simp
next
  case (Suc n)
  from deposit_effect[OF Suc.prems, of type amt successBonus]
  obtain f1 where f1: "deposit f pos type amt successBonus = Some f1" "same_shape f f1"
    "grid_bounded 1000 (home f1)" "grid_bounded 1000 (food f1)"
    "pathSuccess f1 ! nat gx ! nat gy = pathSuccess f ! nat gx ! nat gy + successBonus * 0.1"
    by blast
  then have w1: "wf_field f1" and ix1: "index f1 pos = (gx, gy)"
    using Suc.prems(4) by (simp_all add: same_shape_def same_shape_index)
  from Suc.IH[OF w1 f1(3,4) ix1] f1(1,5) show ?case
    by (auto simp: algebra_simps)
qed

lemma new_grid_bounded: "0 \<le> c \<Longrightarrow> grid_bounded c (new_grid w h)"
  by (auto simp: grid_bounded_def new_grid_def list_all_iff)

text \<open>
  Claim C2. The claim is that under every sequence of deposits no \<open>home\<close> or \<open>food\<close>
  cell exceeds 1000 and no \<open>pathSuccess\<close> cell exceeds 100. The first half holds (lemma
  \<open>deposits_bounded\<close>). The second does not: \<open>deposit\<close> adds \<open>successBonus * 0.1\<close> to
  \<open>pathSuccess\<close> without the clamp that \<open>reinforcePath\<close> applies (lemma
  \<open>reinforcePath_invariants\<close>). Evaluated on a fresh field, 1001 deposits with bonus 1 at
  one position leave 100.1 in its \<open>pathSuccess\<close> cell.
\<close>

theorem deposit_pathSuccess_exceeds_100:
  "deposits (new_PheromoneField 12 12 6) (replicate 1001 (Vec 3 3, ''food'', 12, 1)) \<noteq> None \<and>
   pathSuccess (the (deposits (new_PheromoneField 12 12 6)
                   (replicate 1001 (Vec 3 3, ''food'', 12, 1)))) ! 0 ! 0 = 100.1 \<and>
   pathSuccess (the (deposits (new_PheromoneField 12 12 6)
                   (replicate 1001 (Vec 3 3, ''food'', 12, 1)))) ! 0 ! 0 > 100"
proof -
  let ?f = "new_PheromoneField 12 12 6"
  have w: "wf_field ?f" by (rule new_PheromoneField_wf) simp
  have b: "grid_bounded 1000 (home ?f)" "grid_bounded 1000 (food ?f)"
    by (simp_all add: new_PheromoneField_def Let_def new_grid_bounded)
  have ix: "index ?f (Vec 3 3) = (0, 0)"
    by (simp add: index_def new_PheromoneField_def clamp_def)
  have z: "pathSuccess ?f ! 0 ! 0 = 0"
    by (simp add: new_PheromoneField_def new_grid_def)
  from deposits_pathSuccess[OF w b ix, of 1001 "''food''" 12 1] z show ?thesis
    by auto
qed

section \<open>The invariants of the field\<close>

lemma new_PheromoneField_nonneg: "nonneg_field (new_PheromoneField w h c)"
  by (auto simp: nonneg_field_def grid_nonneg_def new_PheromoneField_def Let_def new_grid_def
      list_all_iff)

lemma deposit_nonneg:
  assumes w: "wf_field f" and bh: "grid_bounded 1000 (home f)" and bf: "grid_bounded 1000 (food f)"
    and nn: "nonneg_field f" and a: "0 \<le> amt * successBonus" "0 \<le> successBonus"
    and d: "deposit f pos type amt successBonus = Some f'"
  shows "nonneg_field f'"
proof -
  obtain gx gy where ix: "index f pos = (gx, gy)" by (cases "index f pos")
  note b = index_bounds[OF w ix]
  from w b have ig: "in_grid (home f) gx gy" "in_grid (food f) gx gy" "in_grid (pathSuccess f) gx gy"
    by (auto simp: wf_field_def intro: grid_dims_in_grid)
  from nn have n: "grid_nonneg (home f)" "grid_nonneg (food f)" "grid_nonneg (pathSuccess f)"
    by (simp_all add: nonneg_field_def)
  from d ix obtain f1 ps where
    f1: "channel_modify f type gx gy (\<lambda>v. min (v + amt * successBonus) 1000) = Some f1"
    and ps: "grid_modify (pathSuccess f1) gx gy (\<lambda>v. v + successBonus * 0.1) = Some ps"
    and f': "f' = f1\<lparr>pathSuccess := ps\<rparr>"
    by (auto simp: deposit_eq[OF w bh bf] split: Option.bind_splits)
  have n1: "grid_nonneg (home f1) \<and> grid_nonneg (food f1) \<and> pathSuccess f1 = pathSuccess f"
  proof (cases "type = ''home''")
    case True
    with f1 obtain g where g: "grid_modify (home f) gx gy (\<lambda>v. min (v + amt * successBonus) 1000) = Some g"
      "f1 = f\<lparr>home := g\<rparr>" by (auto simp: channel_modify_def)
    from grid_modify_nonneg[OF n(1) g(1)] grid_nonneg_at[OF n(1) ig(1)] a(1) g(2) n(2)
    show ?thesis by simp
  next
    case False
    with f1 obtain g where g: "grid_modify (food f) gx gy (\<lambda>v. min (v + amt * successBonus) 1000) = Some g"
      "f1 = f\<lparr>food := g\<rparr>" by (auto simp: channel_modify_def)
    from grid_modify_nonneg[OF n(2) g(1)] grid_nonneg_at[OF n(2) ig(2)] a(1) g(2) n(1)
    show ?thesis by simp
  qed
  with ps have "grid_modify (pathSuccess f) gx gy (\<lambda>v. v + successBonus * 0.1) = Some ps" by simp
  from grid_modify_nonneg[OF n(3) this] grid_nonneg_at[OF n(3) ig(3)] a(2)
  have "grid_nonneg ps" by simp
  with n1 f' show ?thesis by (simp add: nonneg_field_def)
qed

lemma evaporate_nonneg:
  assumes "wf_field f" and "nonneg_field f" and "rate \<le> 1" and "0 \<le> rate"
    and "evaporate rate f = Some f'"
  shows "nonneg_field f'"
  using assms(5) evaporate_eq[OF assms(1), of rate]
  by (auto simp: nonneg_field_def grid_nonneg_def list_all_iff evaporated_nonneg)

lemma reinforcePath_invariants:
  assumes "wf_field f" and "grid_bounded 100 (pathSuccess f)" and "grid_nonneg (pathSuccess f)"
    and "0 \<le> strength"
  shows "\<exists>f'. reinforcePath f pts strength = Some f' \<and> same_shape f f' \<and>
           home f' = home f \<and> food f' = food f \<and>
           grid_bounded 100 (pathSuccess f') \<and> grid_nonneg (pathSuccess f')"
proof -
  let ?P = "\<lambda>t. same_shape f t \<and> home t = home f \<and> food t = food f \<and>
     grid_bounded 100 (pathSuccess t) \<and> grid_nonneg (pathSuccess t)"
  have "?P f" using assms by (simp add: same_shape_refl)
  then show ?thesis
    unfolding reinforcePath_def
  proof (rule for_loop_invariant[where P = ?P])
    fix p t assume t: "?P t"
    then have wt: "wf_field t" by (simp add: same_shape_def)
    obtain gx gy where ix: "index t p = (gx, gy)" by (cases "index t p")
    note b = index_bounds[OF wt ix]
    from wt b have ig: "in_grid (pathSuccess t) gx gy"
      by (auto simp: wf_field_def intro: grid_dims_in_grid)
    then obtain ps where ps: "grid_modify (pathSuccess t) gx gy (\<lambda>v. min (v + strength) 100) = Some ps"
      by (simp add: grid_modify_def)
    from t have "grid_bounded 100 (pathSuccess t)" "grid_nonneg (pathSuccess t)" by simp_all
    with grid_modify_bounded[OF _ ps] grid_modify_nonneg[OF _ ps] grid_nonneg_at[OF _ ig] assms(4)
    have "grid_bounded 100 ps" "grid_nonneg ps" by simp_all
    moreover from grid_modify_dims[OF _ ps] wt have "grid_dims ps (gridW t) (gridH t)"
      by (simp add: wf_field_def)
    ultimately have "?P (t\<lparr>pathSuccess := ps\<rparr>)"
      using t wt by (auto simp: same_shape_def wf_field_def)
    with ix b ps show "\<exists>t'. reinforce_point strength p t = Some t' \<and> ?P t'"
      by (simp add: reinforce_point_def)
  qed
qed

end
